theory Spec2Isabelle
  imports Main "HOL-Library.Sublist"
begin

chapter \<open>content-router: buffers, pools, contexts and the dispatch engine\<close>

section \<open>Go values common to all packages\<close>

text \<open>
  A Go panic is a value of type \<open>fault\<close>; an operation that may panic returns
  \<open>fault + result\<close> with \<open>Inl\<close> for the panic. A pointer or an interface value is
  \<open>None\<close> for \<open>nil\<close> and \<open>Some a\<close> for the object stored at address \<open>a\<close> of the heap;
  addresses index the object lists of the heap, and a fresh object is appended at the end.
  Go has no dangling pointers; an address outside the heap is treated like \<open>nil\<close>.
  A byte is a \<open>char\<close>, so a \<open>[]byte\<close> and the bytes of a Go string are a \<open>char list\<close>.
\<close>

datatype fault = NilPointerDereference | SliceBoundsOutOfRange | Panic string

type_synonym byte = char

type_synonym Buffer = "nat option"

type_synonym Context = "nat option"

datatype stdContext = Background | Derived nat

section \<open>Package buffer: bufferImpl\<close>

text \<open>
  \<open>bufferImpl\<close> holds one slice. The model keeps the visible elements of the slice
  (\<open>len(b.data)\<close> bytes); capacity and the sharing of backing arrays between a buffer and
  its \<open>Slice\<close> views are not modelled.
\<close>

record bufferImpl =
  data :: "byte list"

definition bufferImpl_Get :: "bufferImpl \<Rightarrow> byte list" where
  "bufferImpl_Get b = data b"

definition bufferImpl_Len :: "bufferImpl \<Rightarrow> int" where
  "bufferImpl_Len b = int (length (data b))"

definition bufferImpl_Write :: "byte list \<Rightarrow> bufferImpl \<Rightarrow> int \<times> bufferImpl" where
  "bufferImpl_Write p b = (int (length p), b\<lparr>data := data b @ p\<rparr>)"

definition bufferImpl_Reset :: "bufferImpl \<Rightarrow> bufferImpl" where
  "bufferImpl_Reset b = b\<lparr>data := take 0 (data b)\<rparr>"

text \<open>
  \<open>Truncate\<close>: the guard is \<open>n < len(b.data)\<close>; the slice expression \<open>b.data[:n]\<close> panics
  for a negative \<open>n\<close>. Go's \<open>int\<close> is modelled by \<open>int\<close>.
\<close>

definition bufferImpl_Truncate :: "int \<Rightarrow> bufferImpl \<Rightarrow> fault + bufferImpl" where
  "bufferImpl_Truncate n b =
     (if n < int (length (data b))
      then (if n < 0 then Inl SliceBoundsOutOfRange
            else Inr (b\<lparr>data := take (nat n) (data b)\<rparr>))
      else Inr b)"

definition NewBuffer :: bufferImpl where
  "NewBuffer = \<lparr>data = []\<rparr>"

section \<open>The heap\<close>

text \<open>
  A key of a \<open>map[interface{}]interface{}\<close> is a hashable Go value. Go compares keys with
  \<open>==\<close>, and a floating-point NaN (or a struct or array that holds one) is not equal to
  itself: \<open>NaN\<close> stands for such a key, \<open>Key k\<close> for any other. A Go map is the list of
  its entries. An assignment \<open>m[k] = v\<close> overwrites the entry whose key equals \<open>k\<close> and
  adds an entry when there is none, so every assignment to a NaN key adds one;
  \<open>delete(m, k)\<close> removes the entry whose key equals \<open>k\<close>, so none for a NaN key; an index
  expression \<open>m[k]\<close> finds the entry whose key equals \<open>k\<close>. A \<open>range\<close> loop visits every
  entry, in the order of the list. \<open>map_ok\<close> is the invariant of the representation: no
  two entries have equal keys.
\<close>

datatype 'k key = Key 'k | NaN

definition key_equal :: "'k key \<Rightarrow> 'k key \<Rightarrow> bool" where
  "key_equal a b = (a \<noteq> NaN \<and> a = b)"

fun mapassign :: "'k key \<Rightarrow> 'v \<Rightarrow> ('k key \<times> 'v) list \<Rightarrow> ('k key \<times> 'v) list" where
  "mapassign k v [] = [(k, v)]"
| "mapassign k v ((k', v') # m) =
     (if key_equal k' k then (k', v) # m else (k', v') # mapassign k v m)"

definition mapdelete :: "'k key \<Rightarrow> ('k key \<times> 'v) list \<Rightarrow> ('k key \<times> 'v) list" where
  "mapdelete k m = filter (\<lambda>kv. \<not> key_equal (fst kv) k) m"

definition mapaccess :: "'k key \<Rightarrow> ('k key \<times> 'v) list \<Rightarrow> 'v option" where
  "mapaccess k m = map_option snd (find (\<lambda>kv. key_equal (fst kv) k) m)"

definition map_ok :: "('k key \<times> 'v) list \<Rightarrow> bool" where
  "map_ok m = distinct (filter (\<lambda>k. k \<noteq> NaN) (map fst m))"

text \<open>
  \<open>bufs\<close> are the \<open>bufferImpl\<close> objects, \<open>valmaps\<close> the Go maps (an \<open>interface{}\<close> value
  stored in a map is \<open>None\<close> for \<open>nil\<close>), \<open>ctxs\<close> the \<open>contextImpl\<close> objects,
  \<open>contextPool\<close> the idle items of the package-level \<open>sync.Pool\<close> of package context, and
  \<open>user\<close> whatever else handlers and middleware can reach (a log, the standard output).
  The field \<open>values\<close> of \<open>contextImpl\<close> is written \<open>vals\<close>.
\<close>

record contextImpl =
  Context :: "stdContext option"
  buffer :: Buffer
  vals :: nat

record ('k, 'v, 'x) heap =
  bufs :: "bufferImpl list"
  valmaps :: "('k key \<times> 'v option) list list"
  ctxs :: "contextImpl list"
  contextPool :: "nat list"
  user :: 'x

text \<open>Method calls through the \<open>Buffer\<close> interface; the receiver is a \<open>*bufferImpl\<close>.\<close>

definition Buffer_Get :: "Buffer \<Rightarrow> ('k, 'v, 'x) heap \<Rightarrow> fault + byte list" where
  "Buffer_Get b h =
     (case b of
        None \<Rightarrow> Inl NilPointerDereference
      | Some a \<Rightarrow> if a < length (bufs h) then Inr (bufferImpl_Get (bufs h ! a))
                  else Inl NilPointerDereference)"

definition Buffer_Len :: "Buffer \<Rightarrow> ('k, 'v, 'x) heap \<Rightarrow> fault + int" where
  "Buffer_Len b h =
     (case b of
        None \<Rightarrow> Inl NilPointerDereference
      | Some a \<Rightarrow> if a < length (bufs h) then Inr (bufferImpl_Len (bufs h ! a))
                  else Inl NilPointerDereference)"

definition Buffer_Write ::
  "Buffer \<Rightarrow> byte list \<Rightarrow> ('k, 'v, 'x) heap \<Rightarrow> fault + (int \<times> ('k, 'v, 'x) heap)" where
  "Buffer_Write b p h =
     (case b of
        None \<Rightarrow> Inl NilPointerDereference
      | Some a \<Rightarrow>
          if a < length (bufs h)
          then (case bufferImpl_Write p (bufs h ! a) of
                  (n, b') \<Rightarrow> Inr (n, h\<lparr>bufs := (bufs h)[a := b']\<rparr>))
          else Inl NilPointerDereference)"

definition Buffer_Reset :: "Buffer \<Rightarrow> ('k, 'v, 'x) heap \<Rightarrow> fault + ('k, 'v, 'x) heap" where
  "Buffer_Reset b h =
     (case b of
        None \<Rightarrow> Inl NilPointerDereference
      | Some a \<Rightarrow>
          if a < length (bufs h)
          then Inr (h\<lparr>bufs := (bufs h)[a := bufferImpl_Reset (bufs h ! a)]\<rparr>)
          else Inl NilPointerDereference)"

definition Buffer_Truncate ::
  "Buffer \<Rightarrow> int \<Rightarrow> ('k, 'v, 'x) heap \<Rightarrow> fault + ('k, 'v, 'x) heap" where
  "Buffer_Truncate b n h =
     (case b of
        None \<Rightarrow> Inl NilPointerDereference
      | Some a \<Rightarrow>
          if a < length (bufs h)
          then (case bufferImpl_Truncate n (bufs h ! a) of
                  Inl f \<Rightarrow> Inl f
                | Inr b' \<Rightarrow> Inr (h\<lparr>bufs := (bufs h)[a := b']\<rparr>))
          else Inl NilPointerDereference)"

section \<open>sync.Pool of the Go standard library\<close>

text \<open>
  A \<open>sync.Pool\<close> is the list of its idle items and whether \<open>New\<close> is set. \<open>Get\<close> hands
  out an arbitrary idle item or none at all (the pool may drop items at any time); the
  argument \<open>choice\<close> is that decision: \<open>Some i\<close> takes the idle item at position \<open>i\<close>,
  anything else finds the pool empty, and the caller then runs \<open>New\<close>. \<open>Put(nil)\<close> stores
  nothing.
\<close>

record syncPool =
  New_set :: bool
  idle :: "nat list"

definition sync_Pool_Get :: "nat option \<Rightarrow> nat list \<Rightarrow> nat option \<times> nat list" where
  "sync_Pool_Get choice items =
     (case choice of
        None \<Rightarrow> (None, items)
      | Some i \<Rightarrow> if i < length items then (Some (items ! i), take i items @ drop (Suc i) items)
                  else (None, items))"

definition sync_Pool_Put :: "nat option \<Rightarrow> nat list \<Rightarrow> nat list" where
  "sync_Pool_Put x items = (case x of None \<Rightarrow> items | Some a \<Rightarrow> a # items)"

section \<open>Package buffer: poolImpl\<close>

record poolImpl =
  pool :: syncPool

definition NewPool :: poolImpl where
  "NewPool = \<lparr>pool = \<lparr>New_set = True, idle = []\<rparr>\<rparr>"

definition poolImpl_Acquire ::
  "nat option \<Rightarrow> poolImpl \<Rightarrow> ('k, 'v, 'x) heap \<Rightarrow> Buffer \<times> poolImpl \<times> ('k, 'v, 'x) heap" where
  "poolImpl_Acquire choice p h =
     (case sync_Pool_Get choice (idle (pool p)) of
        (Some a, rest) \<Rightarrow> (Some a, p\<lparr>pool := (pool p)\<lparr>idle := rest\<rparr>\<rparr>, h)
      | (None, rest) \<Rightarrow>
          if New_set (pool p)
          then (Some (length (bufs h)), p, h\<lparr>bufs := bufs h @ [NewBuffer]\<rparr>)
          else (None, p, h))"

text \<open>
  \<open>Release\<close>: the type assertion to \<open>Mutable\<close> succeeds for every non-nil \<open>Buffer\<close> and
  fails for the nil interface; then \<open>Put\<close>.
\<close>

definition poolImpl_Release ::
  "Buffer \<Rightarrow> poolImpl \<Rightarrow> ('k, 'v, 'x) heap \<Rightarrow> fault + (poolImpl \<times> ('k, 'v, 'x) heap)" where
  "poolImpl_Release obj p h =
     (case (if obj \<noteq> None then Buffer_Reset obj h else Inr h) of
        Inl f \<Rightarrow> Inl f
      | Inr h' \<Rightarrow> Inr (p\<lparr>pool := (pool p)\<lparr>idle := sync_Pool_Put obj (idle (pool p))\<rparr>\<rparr>, h'))"

definition poolImpl_Size :: "poolImpl \<Rightarrow> int" where
  "poolImpl_Size p = 0"

section \<open>Package manage: bufferManagerImpl\<close>

record bufferManagerImpl =
  bmpool :: poolImpl

definition NewBufferManager :: bufferManagerImpl where
  "NewBufferManager = \<lparr>bmpool = NewPool\<rparr>"

definition bufferManagerImpl_Acquire ::
  "nat option \<Rightarrow> bufferManagerImpl \<Rightarrow> ('k, 'v, 'x) heap
     \<Rightarrow> Buffer \<times> bufferManagerImpl \<times> ('k, 'v, 'x) heap" where
  "bufferManagerImpl_Acquire choice bm h =
     (case poolImpl_Acquire choice (bmpool bm) h of
        (b, p', h') \<Rightarrow> (b, bm\<lparr>bmpool := p'\<rparr>, h'))"

definition bufferManagerImpl_Release ::
  "Buffer \<Rightarrow> bufferManagerImpl \<Rightarrow> ('k, 'v, 'x) heap
     \<Rightarrow> fault + (bufferManagerImpl \<times> ('k, 'v, 'x) heap)" where
  "bufferManagerImpl_Release buf bm h =
     (case Buffer_Reset buf h of
        Inl f \<Rightarrow> Inl f
      | Inr h1 \<Rightarrow>
          (case poolImpl_Release buf (bmpool bm) h1 of
             Inl f \<Rightarrow> Inl f
           | Inr (p', h2) \<Rightarrow> Inr (bm\<lparr>bmpool := p'\<rparr>, h2)))"

section \<open>Package context: contextImpl\<close>

text \<open>
  \<open>clear_values\<close> is the loop \<open>for k := range m { delete(m, k) }\<close>, and
  \<open>copy_values\<close> the loop \<open>for k, v := range src { dst[k] = v }\<close>. The loop of
  \<open>clear_values\<close> leaves the entries with a NaN key in the map.
\<close>

definition clear_values :: "('k key \<times> 'v) list \<Rightarrow> ('k key \<times> 'v) list" where
  "clear_values m = fold (\<lambda>k acc. mapdelete k acc) (map fst m) m"

definition copy_values ::
  "('k key \<times> 'v) list \<Rightarrow> ('k key \<times> 'v) list \<Rightarrow> ('k key \<times> 'v) list" where
  "copy_values src dst = fold (\<lambda>(k, v) acc. mapassign k v acc) src dst"

text \<open>
  \<open>the_ctx\<close> dereferences a \<open>*contextImpl\<close> together with its map: the object and the
  address and contents of \<open>c.values\<close>.
\<close>

definition the_ctx ::
  "Context \<Rightarrow> ('k, 'v, 'x) heap
     \<Rightarrow> fault + (nat \<times> contextImpl \<times> ('k key \<times> 'v option) list)" where
  "the_ctx c h =
     (case c of
        None \<Rightarrow> Inl NilPointerDereference
      | Some a \<Rightarrow>
          if a < length (ctxs h) \<and> vals (ctxs h ! a) < length (valmaps h)
          then Inr (a, ctxs h ! a, valmaps h ! vals (ctxs h ! a))
          else Inl NilPointerDereference)"

text \<open>
  \<open>NewContext\<close>: \<open>contextPool.Get()\<close> returns an idle \<open>contextImpl\<close> or runs \<open>New\<close>, which
  allocates a \<open>contextImpl\<close> with a fresh empty map.
\<close>

definition contextPool_Get ::
  "nat option \<Rightarrow> ('k, 'v, 'x) heap \<Rightarrow> nat \<times> ('k, 'v, 'x) heap" where
  "contextPool_Get choice h =
     (case sync_Pool_Get choice (contextPool h) of
        (Some a, rest) \<Rightarrow> (a, h\<lparr>contextPool := rest\<rparr>)
      | (None, rest) \<Rightarrow>
          (length (ctxs h),
           h\<lparr>valmaps := valmaps h @ [[]],
             ctxs := ctxs h @ [\<lparr>Context = None, buffer = None, vals = length (valmaps h)\<rparr>]\<rparr>))"

definition NewContext ::
  "nat option \<Rightarrow> stdContext option \<Rightarrow> Buffer \<Rightarrow> ('k, 'v, 'x) heap
     \<Rightarrow> fault + (Context \<times> ('k, 'v, 'x) heap)" where
  "NewContext choice parent buf h =
     (let parent' = (if parent = None then Some Background else parent) in
      case contextPool_Get choice h of
        (a, h1) \<Rightarrow>
          (case the_ctx (Some a) h1 of
             Inl f \<Rightarrow> Inl f
           | Inr (_, c, m) \<Rightarrow>
               Inr (Some a,
                    h1\<lparr>ctxs := (ctxs h1)[a := c\<lparr>Context := parent', buffer := buf\<rparr>],
                       valmaps := (valmaps h1)[vals c := clear_values m]\<rparr>)))"

definition contextImpl_Reset :: "Context \<Rightarrow> ('k, 'v, 'x) heap \<Rightarrow> fault + ('k, 'v, 'x) heap" where
  "contextImpl_Reset c h =
     (case the_ctx c h of
        Inl f \<Rightarrow> Inl f
      | Inr (a, ci, m) \<Rightarrow>
          Inr (h\<lparr>valmaps := (valmaps h)[vals ci := clear_values m],
                 ctxs := (ctxs h)[a := ci\<lparr>buffer := None, Context := None\<rparr>],
                 contextPool := sync_Pool_Put (Some a) (contextPool h)\<rparr>))"

definition contextImpl_Set ::
  "Context \<Rightarrow> 'k key \<Rightarrow> 'v option \<Rightarrow> ('k, 'v, 'x) heap \<Rightarrow> fault + ('k, 'v, 'x) heap" where
  "contextImpl_Set c key val h =
     (case the_ctx c h of
        Inl f \<Rightarrow> Inl f
      | Inr (a, ci, m) \<Rightarrow> Inr (h\<lparr>valmaps := (valmaps h)[vals ci := mapassign key val m]\<rparr>))"

definition contextImpl_Get ::
  "Context \<Rightarrow> 'k key \<Rightarrow> ('k, 'v, 'x) heap \<Rightarrow> fault + 'v option" where
  "contextImpl_Get c key h =
     (case the_ctx c h of
        Inl f \<Rightarrow> Inl f
      | Inr (a, ci, m) \<Rightarrow> Inr (case mapaccess key m of None \<Rightarrow> None | Some v \<Rightarrow> v))"

definition contextImpl_Delete ::
  "Context \<Rightarrow> 'k key \<Rightarrow> ('k, 'v, 'x) heap \<Rightarrow> fault + ('k, 'v, 'x) heap" where
  "contextImpl_Delete c key h =
     (case the_ctx c h of
        Inl f \<Rightarrow> Inl f
      | Inr (a, ci, m) \<Rightarrow> Inr (h\<lparr>valmaps := (valmaps h)[vals ci := mapdelete key m]\<rparr>))"

definition contextImpl_Keys :: "Context \<Rightarrow> ('k, 'v, 'x) heap \<Rightarrow> fault + 'k key list" where
  "contextImpl_Keys c h =
     (case the_ctx c h of
        Inl f \<Rightarrow> Inl f
      | Inr (a, ci, m) \<Rightarrow> Inr (fold (\<lambda>k keys. keys @ [k]) (map fst m) []))"

definition contextImpl_Buffer :: "Context \<Rightarrow> ('k, 'v, 'x) heap \<Rightarrow> fault + Buffer" where
  "contextImpl_Buffer c h =
     (case the_ctx c h of
        Inl f \<Rightarrow> Inl f
      | Inr (a, ci, m) \<Rightarrow> Inr (buffer ci))"

text \<open>
  \<open>Fork\<close> makes a new map, copies the receiver's entries into it and returns a new
  \<open>contextImpl\<close> with the receiver's parent and buffer.
\<close>

definition contextImpl_Fork ::
  "Context \<Rightarrow> ('k, 'v, 'x) heap \<Rightarrow> fault + (Context \<times> ('k, 'v, 'x) heap)" where
  "contextImpl_Fork c h =
     (case the_ctx c h of
        Inl f \<Rightarrow> Inl f
      | Inr (a, ci, m) \<Rightarrow>
          (let values = copy_values m []
           in Inr (Some (length (ctxs h)),
                   h\<lparr>valmaps := valmaps h @ [values],
                     ctxs := ctxs h @ [\<lparr>Context = Context ci, buffer = buffer ci,
                                        vals = length (valmaps h)\<rparr>]\<rparr>)))"

definition contextImpl_ForkWithBuffer ::
  "Context \<Rightarrow> Buffer \<Rightarrow> ('k, 'v, 'x) heap \<Rightarrow> fault + (Context \<times> ('k, 'v, 'x) heap)" where
  "contextImpl_ForkWithBuffer c buf h =
     (case the_ctx c h of
        Inl f \<Rightarrow> Inl f
      | Inr (a, ci, m) \<Rightarrow>
          (let values = copy_values m []
           in Inr (Some (length (ctxs h)),
                   h\<lparr>valmaps := valmaps h @ [values],
                     ctxs := ctxs h @ [\<lparr>Context = Context ci, buffer = buf,
                                        vals = length (valmaps h)\<rparr>]\<rparr>)))"

section \<open>Package router\<close>

text \<open>
  A handler, a middleware and a matcher are Go functions supplied by the caller: they
  take the context and the state \<open>'w\<close> they can reach, and return or panic, leaving a
  new state. An \<open>error\<close> is \<open>None\<close> for \<open>nil\<close>. Callbacks do not reach the router itself
  (registration and dispatch do not interleave).
\<close>

type_synonym ('e, 'w) HandlerFunc = "Context \<Rightarrow> 'w \<Rightarrow> (fault + 'e option) \<times> 'w"

type_synonym ('e, 'w) MiddlewareFunc =
  "Context \<Rightarrow> ('e, 'w) HandlerFunc \<Rightarrow> 'w \<Rightarrow> (fault + 'e option) \<times> 'w"

type_synonym 'w Matcher = "Context \<Rightarrow> 'w \<Rightarrow> (fault + bool) \<times> 'w"

record ('e, 'w) routeEntry =
  matcher :: "'w Matcher"
  handler :: "('e, 'w) HandlerFunc"

text \<open>
  The closures \<open>buildHandlerChain\<close> creates: \<open>baseHandler\<close>, which captures the router
  \<open>r\<close> and reads \<open>r.routes\<close> when it is called, and the wrapper of the loop body, which
  captures \<open>middleware\<close> and \<open>next\<close>.
\<close>

datatype ('e, 'w) closure =
  BaseHandler
| Wrapper "('e, 'w) MiddlewareFunc" "('e, 'w) closure"

text \<open>
  Of the fields of \<open>routerImpl\<close>, \<open>bufferManager\<close> and \<open>pipelines\<close> are left out:
  \<open>Register\<close>, \<open>Match\<close>, \<open>Use\<close>, \<open>buildHandlerChain\<close> and \<open>Route\<close> never read them.
\<close>

record ('e, 'w) routerImpl =
  routes :: "('e, 'w) routeEntry list"
  middlewares :: "('e, 'w) MiddlewareFunc list"
  handlerChain :: "('e, 'w) closure option"
  dirty :: bool

definition NewRouter :: "('e, 'w) routerImpl" where
  "NewRouter = \<lparr>routes = [], middlewares = [], handlerChain = None, dirty = False\<rparr>"

text \<open>The body of \<open>baseHandler\<close>: the loop over the route table.\<close>

fun baseHandler :: "('e, 'w) routeEntry list \<Rightarrow> ('e, 'w) HandlerFunc" where
  "baseHandler [] ctx w = (Inr None, w)"
| "baseHandler (entry # rest) ctx w =
     (case matcher entry ctx w of
        (Inl f, w1) \<Rightarrow> (Inl f, w1)
      | (Inr True, w1) \<Rightarrow> handler entry ctx w1
      | (Inr False, w1) \<Rightarrow> baseHandler rest ctx w1)"

text \<open>Calling a closure; \<open>rs\<close> is \<open>r.routes\<close> at the time of the call.\<close>

primrec call :: "('e, 'w) routeEntry list \<Rightarrow> ('e, 'w) closure \<Rightarrow> ('e, 'w) HandlerFunc" where
  "call rs BaseHandler = baseHandler rs"
| "call rs (Wrapper middleware next) = (\<lambda>ctx. middleware ctx (call rs next))"

text \<open>
  The loop \<open>for i := len(r.middlewares) - 1; i >= 0; i--\<close>; the counter of \<open>wrap_loop\<close>
  is \<open>i + 1\<close>.
\<close>

fun wrap_loop ::
  "('e, 'w) MiddlewareFunc list \<Rightarrow> nat \<Rightarrow> ('e, 'w) closure \<Rightarrow> ('e, 'w) closure" where
  "wrap_loop ms 0 h = h"
| "wrap_loop ms (Suc i) h = wrap_loop ms i (Wrapper (ms ! i) h)"

definition buildHandlerChain ::
  "('e, 'w) routerImpl \<Rightarrow> ('e, 'w) closure \<times> ('e, 'w) routerImpl" where
  "buildHandlerChain r =
     (if \<not> dirty r \<and> handlerChain r \<noteq> None then (the (handlerChain r), r)
      else if length (middlewares r) = 0
      then (BaseHandler, r\<lparr>handlerChain := Some BaseHandler, dirty := False\<rparr>)
      else (let h = wrap_loop (middlewares r) (length (middlewares r)) BaseHandler
            in (h, r\<lparr>handlerChain := Some h, dirty := False\<rparr>)))"

definition Register ::
  "'w Matcher \<Rightarrow> ('e, 'w) HandlerFunc \<Rightarrow> ('e, 'w) routerImpl \<Rightarrow> ('e, 'w) routerImpl" where
  "Register m h r = r\<lparr>routes := routes r @ [\<lparr>matcher = m, handler = h\<rparr>], dirty := True\<rparr>"

definition Use ::
  "('e, 'w) MiddlewareFunc list \<Rightarrow> ('e, 'w) routerImpl \<Rightarrow> ('e, 'w) routerImpl" where
  "Use ms r = r\<lparr>middlewares := middlewares r @ ms, dirty := True\<rparr>"

text \<open>\<open>bytes.HasPrefix\<close> of the standard library.\<close>

definition HasPrefix :: "byte list \<Rightarrow> byte list \<Rightarrow> bool" where
  "HasPrefix s p = (length s \<ge> length p \<and> take (length p) s = p)"

text \<open>
  The matcher \<open>Match\<close> builds: it reads \<open>ctx.Buffer().Get()\<close> and tests the whole pattern
  string as a prefix.
\<close>

definition Match_matcher :: "byte list \<Rightarrow> ('k, 'v, 'x) heap Matcher" where
  "Match_matcher patternBytes ctx h =
     (case contextImpl_Buffer ctx h of
        Inl f \<Rightarrow> (Inl f, h)
      | Inr b \<Rightarrow>
          (case Buffer_Get b h of
             Inl f \<Rightarrow> (Inl f, h)
           | Inr d \<Rightarrow> (Inr (length d \<ge> length patternBytes \<and> HasPrefix d patternBytes), h)))"

definition Match ::
  "string \<Rightarrow> ('e, ('k, 'v, 'x) heap) HandlerFunc \<Rightarrow> ('e, ('k, 'v, 'x) heap) routerImpl
     \<Rightarrow> ('e, ('k, 'v, 'x) heap) routerImpl" where
  "Match pattern h r = Register (Match_matcher pattern) h r"

text \<open>
  \<open>Route\<close>: \<open>NewContext\<close>, \<open>buildHandlerChain\<close>, the call of the chain, \<open>Reset\<close> of the
  context (the type assertion to \<open>interface{ Reset() }\<close> holds for \<open>*contextImpl\<close>). A
  panic of the chain leaves \<open>Route\<close> before \<open>Reset\<close>.
\<close>

definition Route ::
  "nat option \<Rightarrow> ('e, ('k, 'v, 'x) heap) routerImpl \<Rightarrow> stdContext option \<Rightarrow> Buffer
     \<Rightarrow> ('k, 'v, 'x) heap
     \<Rightarrow> (fault + (Buffer \<times> 'e option)) \<times> ('e, ('k, 'v, 'x) heap) routerImpl \<times> ('k, 'v, 'x) heap"
  where
  "Route choice r ctx buf h =
     (case NewContext choice ctx buf h of
        Inl f \<Rightarrow> (Inl f, r, h)
      | Inr (routerCtx, h1) \<Rightarrow>
          (case buildHandlerChain r of
             (hc, r1) \<Rightarrow>
               (case call (routes r1) hc routerCtx h1 of
                  (Inl f, h2) \<Rightarrow> (Inl f, r1, h2)
                | (Inr err, h2) \<Rightarrow>
                    (case contextImpl_Reset routerCtx h2 of
                       Inl f \<Rightarrow> (Inl f, r1, h2)
                     | Inr h3 \<Rightarrow> (Inr (buf, err), r1, h3)))))"

text \<open>
  The middleware of \<open>TestRouter_UseMiddleware\<close>: an effect before \<open>next\<close>, the call of
  \<open>next\<close>, an effect after it, and the error of \<open>next\<close> returned.
\<close>

definition around :: "('w \<Rightarrow> 'w) \<Rightarrow> ('w \<Rightarrow> 'w) \<Rightarrow> ('e, 'w) MiddlewareFunc" where
  "around before after ctx next w =
     (case next ctx (before w) of
        (Inl f, w1) \<Rightarrow> (Inl f, w1)
      | (Inr err, w1) \<Rightarrow> (Inr err, after w1))"

section \<open>Package middleware\<close>




section \<open>Notions the properties are stated with\<close>

text \<open>
  \<open>rejected_by rs ctx w\<close>: every matcher of \<open>rs\<close>, run in order from the state \<open>w\<close>,
  returns false; the result is the state the matchers leave.
\<close>

fun rejected_by :: "('e, 'w) routeEntry list \<Rightarrow> Context \<Rightarrow> 'w \<Rightarrow> 'w option" where
  "rejected_by [] ctx w = Some w"
| "rejected_by (entry # rest) ctx w =
     (case matcher entry ctx w of
        (Inr False, w1) \<Rightarrow> rejected_by rest ctx w1
      | _ \<Rightarrow> None)"

text \<open>
  \<open>pool_ok\<close>: the pool was made by \<open>NewPool\<close>, and each idle item is a buffer of the
  heap that is empty. \<open>contextPool_ok\<close>: each idle item of the context pool is a
  \<open>contextImpl\<close> of the heap with its map.
\<close>

definition pool_ok :: "poolImpl \<Rightarrow> ('k, 'v, 'x) heap \<Rightarrow> bool" where
  "pool_ok p h =
     (New_set (pool p) \<and>
      list_all (\<lambda>a. a < length (bufs h) \<and> data (bufs h ! a) = []) (idle (pool p)))"

definition contextPool_ok :: "('k, 'v, 'x) heap \<Rightarrow> bool" where
  "contextPool_ok h =
     list_all (\<lambda>a. a < length (ctxs h) \<and> vals (ctxs h ! a) < length (valmaps h))
       (contextPool h)"

text \<open>
  A \<open>Set\<close> or \<open>Delete\<close> call, its effect on one map, and a sequence of such calls, each
  on a context of its own.
\<close>

datatype ('k, 'v) store_op = Set_op "'k key" "'v option" | Delete_op "'k key"

fun store_after ::
  "('k, 'v) store_op list \<Rightarrow> ('k key \<times> 'v option) list \<Rightarrow> ('k key \<times> 'v option) list"
  where
  "store_after [] m = m"
| "store_after (Set_op k v # ops) m = store_after ops (mapassign k v m)"
| "store_after (Delete_op k # ops) m = store_after ops (mapdelete k m)"

fun apply_op ::
  "Context \<Rightarrow> ('k, 'v) store_op \<Rightarrow> ('k, 'v, 'x) heap \<Rightarrow> fault + ('k, 'v, 'x) heap" where
  "apply_op c (Set_op k v) h = contextImpl_Set c k v h"
| "apply_op c (Delete_op k) h = contextImpl_Delete c k h"

fun apply_ops ::
  "(Context \<times> ('k, 'v) store_op) list \<Rightarrow> ('k, 'v, 'x) heap \<Rightarrow> fault + ('k, 'v, 'x) heap"
  where
  "apply_ops [] h = Inr h"
| "apply_ops ((c, op) # rest) h =
     (case apply_op c op h of Inl f \<Rightarrow> Inl f | Inr h1 \<Rightarrow> apply_ops rest h1)"

definition ops_on :: "Context \<Rightarrow> (Context \<times> ('k, 'v) store_op) list \<Rightarrow> ('k, 'v) store_op list"
  where
  "ops_on c ops = map snd (filter (\<lambda>x. fst x = c) ops)"

text \<open>The fixtures of the router tests, writing each call into a log.\<close>

definition mock_matcher :: "string \<Rightarrow> bool \<Rightarrow> string list Matcher" where
  "mock_matcher name matchResult ctx w = (Inr matchResult, w @ [name])"

definition mock_handler :: "string \<Rightarrow> 'e option \<Rightarrow> ('e, string list) HandlerFunc" where
  "mock_handler name err ctx w = (Inr err, w @ [name])"

text \<open>
  \<open>compose ms\<close> is the chain for the middleware list \<open>ms\<close>, the first middleware
  outermost, around the terminal handler.
\<close>

definition compose :: "('e, 'w) MiddlewareFunc list \<Rightarrow> ('e, 'w) closure" where
  "compose ms = foldr Wrapper ms BaseHandler"

text \<open>
  The routers a program can hold: \<open>NewRouter()\<close> and what \<open>Register\<close>, \<open>Use\<close> and
  \<open>buildHandlerChain\<close> make of one (\<open>Match\<close> is a \<open>Register\<close>, and \<open>Route\<close> changes the
  router through \<open>buildHandlerChain\<close> only).
\<close>

inductive_set reachable :: "('e, 'w) routerImpl set" where
  init: "NewRouter \<in> reachable"
| reg: "r \<in> reachable \<Longrightarrow> Register m h r \<in> reachable"
| use: "r \<in> reachable \<Longrightarrow> Use ms r \<in> reachable"
| build: "r \<in> reachable \<Longrightarrow> snd (buildHandlerChain r) \<in> reachable"

text \<open>
  \<open>cache_ok\<close>: a clean router with a cached chain caches the chain of its current
  middleware list.
\<close>

definition cache_ok :: "('e, 'w) routerImpl \<Rightarrow> bool" where
  "cache_ok r =
     (dirty r \<or> handlerChain r = None \<or> handlerChain r = Some (compose (middlewares r)))"

text \<open>
  \<open>dispatch rs ms\<close> is a dispatch without any cache: a context from the pool, the chain
  composed from the middleware list \<open>ms\<close> around the scan of the route table \<open>rs\<close>, the reset
  of the context; it gives the result of \<open>Route\<close> and the heap it leaves.
\<close>

definition dispatch ::
  "('e, ('k, 'v, 'x) heap) routeEntry list \<Rightarrow> ('e, ('k, 'v, 'x) heap) MiddlewareFunc list
     \<Rightarrow> nat option \<Rightarrow> stdContext option \<Rightarrow> Buffer \<Rightarrow> ('k, 'v, 'x) heap
     \<Rightarrow> (fault + (Buffer \<times> 'e option)) \<times> ('k, 'v, 'x) heap" where
  "dispatch rs ms choice ctx buf h =
     (case NewContext choice ctx buf h of
        Inl f \<Rightarrow> (Inl f, h)
      | Inr (routerCtx, h1) \<Rightarrow>
          (case call rs (compose ms) routerCtx h1 of
             (Inl f, h2) \<Rightarrow> (Inl f, h2)
           | (Inr err, h2) \<Rightarrow>
               (case contextImpl_Reset routerCtx h2 of
                  Inl f \<Rightarrow> (Inl f, h2)
                | Inr h3 \<Rightarrow> (Inr (buf, err), h3))))"

text \<open>
  \<open>dispatch_with hc rs\<close> is the same with the chain \<open>hc\<close> given.
\<close>

definition dispatch_with ::
  "('e, ('k, 'v, 'x) heap) closure \<Rightarrow> ('e, ('k, 'v, 'x) heap) routeEntry list
     \<Rightarrow> nat option \<Rightarrow> stdContext option \<Rightarrow> Buffer \<Rightarrow> ('k, 'v, 'x) heap
     \<Rightarrow> (fault + (Buffer \<times> 'e option)) \<times> ('k, 'v, 'x) heap" where
  "dispatch_with hc rs choice ctx buf h =
     (case NewContext choice ctx buf h of
        Inl f \<Rightarrow> (Inl f, h)
      | Inr (routerCtx, h1) \<Rightarrow>
          (case call rs hc routerCtx h1 of
             (Inl f, h2) \<Rightarrow> (Inl f, h2)
           | (Inr err, h2) \<Rightarrow>
               (case contextImpl_Reset routerCtx h2 of
                  Inl f \<Rightarrow> (Inl f, h2)
                | Inr h3 \<Rightarrow> (Inr (buf, err), h3))))"



section \<open>Concrete programs\<close>

text \<open>
  \<open>payload_heap d\<close> is the heap of a program that holds one buffer with the payload \<open>d\<close>
  and has not dispatched yet; \<open>routed_heap d\<close> is that heap inside the first \<open>Route\<close>, with
  the context around the buffer, and \<open>reset_heap d\<close> after it, the context back in its
  pool. \<open>forked_heap\<close> holds a context with one stored value.
\<close>

definition payload_heap :: "byte list \<Rightarrow> (nat, nat, unit) heap" where
  "payload_heap d = \<lparr>bufs = [\<lparr>data = d\<rparr>], valmaps = [], ctxs = [], contextPool = [], user = ()\<rparr>"

definition routed_heap :: "byte list \<Rightarrow> (nat, nat, unit) heap" where
  "routed_heap d =
     \<lparr>bufs = [\<lparr>data = d\<rparr>], valmaps = [[]],
      ctxs = [\<lparr>Context = Some Background, buffer = Some 0, vals = 0\<rparr>],
      contextPool = [], user = ()\<rparr>"

definition reset_heap :: "byte list \<Rightarrow> (nat, nat, unit) heap" where
  "reset_heap d =
     \<lparr>bufs = [\<lparr>data = d\<rparr>], valmaps = [[]],
      ctxs = [\<lparr>Context = None, buffer = None, vals = 0\<rparr>],
      contextPool = [0], user = ()\<rparr>"



definition forked_heap :: "(nat, nat, unit) heap" where
  "forked_heap =
     \<lparr>bufs = [\<lparr>data = ''x''\<rparr>], valmaps = [[(Key 1, Some 10)]],
      ctxs = [\<lparr>Context = Some Background, buffer = Some 0, vals = 0\<rparr>],
      contextPool = [], user = ()\<rparr>"

text \<open>
  \<open>log_call\<close> appends to the call log, as the middleware and handlers of
  \<open>TestRouter_UseMiddleware\<close> do. \<open>failing_handler\<close> returns the error 7.
  \<open>complaining_middleware\<close> runs \<open>next\<close> and turns a nil error into the error 1.
\<close>

definition log_call :: "string \<Rightarrow> string list \<Rightarrow> string list" where
  "log_call name w = w @ [name]"

definition failing_handler :: "(nat, 'w) HandlerFunc" where
  "failing_handler ctx h = (Inr (Some 7), h)"

definition complaining_middleware :: "(nat, (nat, nat, unit) heap) MiddlewareFunc" where
  "complaining_middleware ctx next h =
     (case next ctx h of
        (Inr None, h1) \<Rightarrow> (Inr (Some 1), h1)
      | other \<Rightarrow> other)"

chapter \<open>Auxiliary facts\<close>

section \<open>Pools\<close>

lemma sync_Pool_Get_cases:
  assumes "sync_Pool_Get c items = (r, rest)"
  shows "(r = None \<and> rest = items) \<or> (\<exists>a. r = Some a \<and> a \<in> set items \<and> set rest \<subseteq> set items)"
proof (cases c)
  case None
  with assms show ?thesis by (simp add: sync_Pool_Get_def)
next
  case (Some i)
  show ?thesis
  proof (cases "i < length items")
    case True
    with Some assms have r: "r = Some (items ! i)" and rest: "rest = take i items @ drop (Suc i) items"
      by (simp_all add: sync_Pool_Get_def)
    have "set rest \<subseteq> set items"
      unfolding rest using set_take_subset [of i items] set_drop_subset [of "Suc i" items] by auto
    with r True show ?thesis by simp
  next
    case False
    with Some assms show ?thesis by (simp add: sync_Pool_Get_def)
  qed
qed

lemma Acquire_cases:
  assumes acq: "poolImpl_Acquire c p h = (b, p', h')" and new: "New_set (pool p)"
  shows "(\<exists>a. b = Some a \<and> a \<in> set (idle (pool p)) \<and> h' = h \<and>
              set (idle (pool p')) \<subseteq> set (idle (pool p)) \<and> New_set (pool p'))
         \<or> (b = Some (length (bufs h)) \<and> p' = p \<and> h' = h\<lparr>bufs := bufs h @ [NewBuffer]\<rparr>)"
proof -
  obtain r rest where g: "sync_Pool_Get c (idle (pool p)) = (r, rest)"
    by (cases "sync_Pool_Get c (idle (pool p))") auto
  from sync_Pool_Get_cases [OF g] show ?thesis
  proof
    assume "r = None \<and> rest = idle (pool p)"
    with acq g new show ?thesis by (simp add: poolImpl_Acquire_def)
  next
    assume "\<exists>a. r = Some a \<and> a \<in> set (idle (pool p)) \<and> set rest \<subseteq> set (idle (pool p))"
    then obtain a where "r = Some a" "a \<in> set (idle (pool p))" "set rest \<subseteq> set (idle (pool p))"
      by blast
    with acq g new show ?thesis by (auto simp: poolImpl_Acquire_def)
  qed
qed

lemma Acquire_pool_ok:
  assumes ok: "pool_ok p h" and acq: "poolImpl_Acquire c p h = (b, p', h')"
  shows "\<exists>a. b = Some a \<and> a < length (bufs h') \<and> data (bufs h' ! a) = []"
    and "pool_ok p' h'"
proof -
  from ok have new: "New_set (pool p)"
    and all: "\<forall>a\<in>set (idle (pool p)). a < length (bufs h) \<and> data (bufs h ! a) = []"
    by (simp_all add: pool_ok_def list_all_iff)
  from Acquire_cases [OF acq new] all
  show "\<exists>a. b = Some a \<and> a < length (bufs h') \<and> data (bufs h' ! a) = []"
    by (auto simp: NewBuffer_def)
  from Acquire_cases [OF acq new] all new
  show "pool_ok p' h'"
    by (auto simp: pool_ok_def list_all_iff nth_append)
qed

lemma Release_resets:
  assumes a: "a < length (bufs h)"
    and rest: "\<forall>x\<in>set (idle (pool p)). x < length (bufs h) \<and> (x \<noteq> a \<longrightarrow> data (bufs h ! x) = [])"
    and new: "New_set (pool p)"
  shows "\<exists>p' h'. poolImpl_Release (Some a) p h = Inr (p', h') \<and> pool_ok p' h' \<and>
           a \<in> set (idle (pool p')) \<and> Buffer_Len (Some a) h' = Inr 0"
  using assms
  by (auto simp: poolImpl_Release_def Buffer_Reset_def sync_Pool_Put_def pool_ok_def
      list_all_iff bufferImpl_Reset_def Buffer_Len_def bufferImpl_Len_def nth_list_update)

lemma buffer_pool_cycle:
  assumes ok: "pool_ok p h"
  shows "\<exists>b1 p1 h1 n h1' p2 h2 b2 p3 h3.
           poolImpl_Acquire c1 p h = (b1, p1, h1) \<and>
           Buffer_Write b1 xs h1 = Inr (n, h1') \<and>
           poolImpl_Release b1 p1 h1' = Inr (p2, h2) \<and> Buffer_Len b1 h2 = Inr 0 \<and>
           b1 \<in> Some ` set (idle (pool p2)) \<and>
           poolImpl_Acquire c2 p2 h2 = (b2, p3, h3) \<and>
           Buffer_Len b2 h3 = Inr 0"
proof -
  obtain b1 p1 h1 where acq1: "poolImpl_Acquire c1 p h = (b1, p1, h1)"
    by (cases "poolImpl_Acquire c1 p h") auto
  from Acquire_pool_ok [OF ok acq1] obtain a where b1: "b1 = Some a" and a: "a < length (bufs h1)"
    and ok1: "pool_ok p1 h1" by blast
  define h1' where "h1' = h1\<lparr>bufs := (bufs h1)[a := snd (bufferImpl_Write xs (bufs h1 ! a))]\<rparr>"
  have wr: "Buffer_Write b1 xs h1 = Inr (int (length xs), h1')"
    using a by (simp add: Buffer_Write_def b1 h1'_def bufferImpl_Write_def)
  have a': "a < length (bufs h1')" using a by (simp add: h1'_def)
  have rest: "\<forall>x\<in>set (idle (pool p1)). x < length (bufs h1') \<and> (x \<noteq> a \<longrightarrow> data (bufs h1' ! x) = [])"
    using ok1 by (auto simp: pool_ok_def list_all_iff h1'_def)
  from ok1 have new1: "New_set (pool p1)" by (simp add: pool_ok_def)
  from Release_resets [OF a' rest new1] obtain p2 h2 where
    rel: "poolImpl_Release (Some a) p1 h1' = Inr (p2, h2)" and ok2: "pool_ok p2 h2"
    and len: "Buffer_Len (Some a) h2 = Inr 0" and mem: "a \<in> set (idle (pool p2))" by blast
  obtain b2 p3 h3 where acq2: "poolImpl_Acquire c2 p2 h2 = (b2, p3, h3)"
    by (cases "poolImpl_Acquire c2 p2 h2") auto
  from Acquire_pool_ok(1) [OF ok2 acq2] have "Buffer_Len b2 h3 = Inr 0"
    by (auto simp: Buffer_Len_def bufferImpl_Len_def)
  with acq1 wr rel len acq2 b1 mem show ?thesis by blast
qed

section \<open>Contexts\<close>

lemma fold_mapdelete:
  "fold (\<lambda>k acc. mapdelete k acc) ks m =
     filter (\<lambda>kv. \<forall>k\<in>set ks. \<not> key_equal (fst kv) k) m"
proof (induction ks arbitrary: m)
  case Nil
  then show ?case by simp
next
  case (Cons k ks)
  then show ?case by (auto simp: mapdelete_def intro: filter_cong)
qed

lemma clear_values_NaN: "clear_values m = filter (\<lambda>kv. fst kv = NaN) m"
proof -
  have "(\<forall>k\<in>set (map fst m). \<not> key_equal (fst kv) k) = (fst kv = NaN)" if "kv \<in> set m" for kv
    using that by (auto simp: key_equal_def)
  then show ?thesis
    unfolding clear_values_def fold_mapdelete by (intro filter_cong refl)
qed

lemma clear_values_Nil: "clear_values [] = []"
  by (simp add: clear_values_def)

lemma fold_snoc: "fold (\<lambda>k keys. keys @ [k]) xs acc = acc @ xs"
  by (induction xs arbitrary: acc) simp_all

lemma apply_op_frame:
  assumes "the_ctx c h = Inr (a, ci, m)"
  shows "apply_op c op h = Inr (h\<lparr>valmaps := (valmaps h)[vals ci := store_after [op] m]\<rparr>)"
  using assms by (cases op) (simp_all add: contextImpl_Set_def contextImpl_Delete_def)

lemma the_ctx_SomeD:
  assumes "the_ctx c h = Inr (a, ci, m)"
  shows "c = Some a" "a < length (ctxs h)" "ci = ctxs h ! a" "vals ci < length (valmaps h)"
    "m = valmaps h ! vals ci"
  using assms by (auto simp: the_ctx_def split: option.splits if_splits)

lemma apply_ops_own:
  assumes "the_ctx c h = Inr (a, ci, m)"
  shows "apply_ops (map (Pair c) ops) h =
           Inr (h\<lparr>valmaps := (valmaps h)[vals ci := store_after ops m]\<rparr>)"
  using assms
proof (induction ops arbitrary: h m)
  case Nil
  from the_ctx_SomeD(5) [OF Nil] show ?case by simp
next
  case (Cons op ops)
  let ?h1 = "h\<lparr>valmaps := (valmaps h)[vals ci := store_after [op] m]\<rparr>"
  note d = the_ctx_SomeD [OF Cons.prems]
  have c1: "the_ctx c ?h1 = Inr (a, ci, store_after [op] m)"
    using d by (simp add: the_ctx_def)
  have "apply_ops (map (Pair c) (op # ops)) h = apply_ops (map (Pair c) ops) ?h1"
    by (simp add: apply_op_frame [OF Cons.prems])
  also have "\<dots> = Inr (?h1\<lparr>valmaps := (valmaps ?h1)[vals ci := store_after ops (store_after [op] m)]\<rparr>)"
    by (rule Cons.IH [OF c1])
  finally show ?case by (cases op) simp_all
qed

lemma contextPool_Get_ok:
  assumes ok: "contextPool_ok h" and g: "contextPool_Get c h = (a, h1)"
  shows "a < length (ctxs h1)" "vals (ctxs h1 ! a) < length (valmaps h1)" "contextPool_ok h1"
proof -
  obtain r rest where sg: "sync_Pool_Get c (contextPool h) = (r, rest)"
    by (cases "sync_Pool_Get c (contextPool h)") auto
  from ok have all: "\<forall>x\<in>set (contextPool h). x < length (ctxs h) \<and> vals (ctxs h ! x) < length (valmaps h)"
    by (simp add: contextPool_ok_def list_all_iff)
  have "a < length (ctxs h1) \<and> vals (ctxs h1 ! a) < length (valmaps h1) \<and> contextPool_ok h1"
  proof (cases r)
    case None
    with sg g have a: "a = length (ctxs h)" and h1: "h1 = h\<lparr>valmaps := valmaps h @ [[]],
             ctxs := ctxs h @ [\<lparr>Context = None, buffer = None, vals = length (valmaps h)\<rparr>]\<rparr>"
      by (simp_all add: contextPool_Get_def)
    from all show ?thesis
      by (auto simp: a h1 contextPool_ok_def list_all_iff nth_append)
  next
    case (Some x)
    with sg g have a: "a = x" and h1: "h1 = h\<lparr>contextPool := rest\<rparr>"
      by (simp_all add: contextPool_Get_def)
    from sync_Pool_Get_cases [OF sg] Some have "x \<in> set (contextPool h)" "set rest \<subseteq> set (contextPool h)"
      by auto
    with all show ?thesis
      by (auto simp: a h1 contextPool_ok_def list_all_iff)
  qed
  then show "a < length (ctxs h1)" "vals (ctxs h1 ! a) < length (valmaps h1)" "contextPool_ok h1"
    by simp_all
qed

lemma NewContext_returns:
  assumes ok: "contextPool_ok h"
  shows "\<exists>a h'. NewContext c par buf h = Inr (Some a, h') \<and>
           (\<exists>ci m'. the_ctx (Some a) h' = Inr (a, ci, m') \<and> buffer ci = buf \<and>
              list_all (\<lambda>kv. fst kv = NaN) m') \<and>
           contextPool_ok h'"
proof -
  obtain a h1 where g: "contextPool_Get c h = (a, h1)"
    by (cases "contextPool_Get c h") auto
  note v = contextPool_Get_ok [OF ok g]
  let ?par = "if par = None then Some Background else par"
  let ?ci = "(ctxs h1 ! a)\<lparr>Context := ?par, buffer := buf\<rparr>"
  let ?m' = "clear_values (valmaps h1 ! vals (ctxs h1 ! a))"
  let ?h' = "h1\<lparr>ctxs := (ctxs h1)[a := ?ci],
                 valmaps := (valmaps h1)[vals (ctxs h1 ! a) := ?m']\<rparr>"
  have n: "NewContext c par buf h = Inr (Some a, ?h')"
    using v(1,2) by (simp add: NewContext_def g the_ctx_def)
  have t: "the_ctx (Some a) ?h' = Inr (a, ?ci, ?m')"
    using v(1,2) by (simp add: the_ctx_def)
  have nan: "list_all (\<lambda>kv. fst kv = NaN) ?m'"
    by (simp add: clear_values_NaN list_all_iff)
  have "contextPool_ok ?h'"
    using v by (auto simp: contextPool_ok_def list_all_iff nth_list_update)
  with n t nan show ?thesis by fastforce
qed

lemma Reset_returns:
  assumes c: "the_ctx (Some a) h = Inr (a, ci, m)" and ok: "contextPool_ok h"
  shows "\<exists>h' ks. contextImpl_Reset (Some a) h = Inr h' \<and>
           contextImpl_Keys (Some a) h' = Inr ks \<and> list_all (\<lambda>k. k = NaN) ks \<and>
           contextImpl_Buffer (Some a) h' = Inr None \<and>
           a \<in> set (contextPool h') \<and> contextPool_ok h'"
proof -
  note d = the_ctx_SomeD [OF c]
  let ?h' = "h\<lparr>valmaps := (valmaps h)[vals ci := clear_values m],
                ctxs := (ctxs h)[a := ci\<lparr>buffer := None, Context := None\<rparr>],
                contextPool := sync_Pool_Put (Some a) (contextPool h)\<rparr>"
  have r: "contextImpl_Reset (Some a) h = Inr ?h'"
    by (simp add: contextImpl_Reset_def c)
  have t: "the_ctx (Some a) ?h' = Inr (a, ci\<lparr>buffer := None, Context := None\<rparr>, clear_values m)"
    using d by (simp add: the_ctx_def)
  have k: "contextImpl_Keys (Some a) ?h' = Inr (map fst (clear_values m))"
    by (simp add: contextImpl_Keys_def t fold_snoc)
  have nan: "list_all (\<lambda>k. k = NaN) (map fst (clear_values m))"
    by (simp add: clear_values_NaN list_all_iff)
  have b: "contextImpl_Buffer (Some a) ?h' = Inr None"
    by (simp add: contextImpl_Buffer_def t)
  have mem: "a \<in> set (contextPool ?h')" by (simp add: sync_Pool_Put_def)
  have "contextPool_ok ?h'"
    using ok d by (auto simp: contextPool_ok_def list_all_iff nth_list_update sync_Pool_Put_def)
  with r k nan b mem show ?thesis by blast
qed

lemma context_pool_cycle:
  assumes ok: "contextPool_ok (h :: ('k, 'v, 'x) heap)"
  shows "\<exists>ctx1 h1 h1' h2 ks1 ctx2 h3 ks2.
           NewContext c1 par1 buf1 h = Inr (ctx1, h1) \<and>
           apply_ops (map (Pair ctx1) ops) h1 = Inr h1' \<and>
           contextImpl_Reset ctx1 h1' = Inr h2 \<and>
           contextImpl_Keys ctx1 h2 = Inr ks1 \<and> list_all (\<lambda>k. k = NaN) ks1 \<and>
           contextImpl_Buffer ctx1 h2 = Inr None \<and>
           ctx1 \<in> Some ` set (contextPool h2) \<and>
           NewContext c2 par2 buf2 h2 = Inr (ctx2, h3) \<and>
           contextImpl_Keys ctx2 h3 = Inr ks2 \<and> list_all (\<lambda>k. k = NaN) ks2"
proof -
  from NewContext_returns [OF ok] obtain a h1 ci m1 where
    n1: "NewContext c1 par1 buf1 h = Inr (Some a, h1)"
    and t1: "the_ctx (Some a) h1 = Inr (a, ci, m1)" and ok1: "contextPool_ok h1"
    by blast
  let ?h1' = "h1\<lparr>valmaps := (valmaps h1)[vals ci := store_after ops m1]\<rparr>"
  have ops: "apply_ops (map (Pair (Some a)) ops) h1 = Inr ?h1'"
    by (rule apply_ops_own [OF t1])
  note d = the_ctx_SomeD [OF t1]
  have t1': "the_ctx (Some a) ?h1' = Inr (a, ci, store_after ops m1)"
    using d by (simp add: the_ctx_def)
  have ok1': "contextPool_ok ?h1'"
    using ok1 by (simp add: contextPool_ok_def)
  from Reset_returns [OF t1' ok1'] obtain h2 ks1 where
    r: "contextImpl_Reset (Some a) ?h1' = Inr h2"
    and k: "contextImpl_Keys (Some a) h2 = Inr ks1" "list_all (\<lambda>k. k = NaN) ks1"
    and b: "contextImpl_Buffer (Some a) h2 = Inr None"
    and mem: "a \<in> set (contextPool h2)" and ok2: "contextPool_ok h2" by blast
  from NewContext_returns [OF ok2] obtain a2 h3 ci2 m2 where
    n2: "NewContext c2 par2 buf2 h2 = Inr (Some a2, h3)"
    and t2: "the_ctx (Some a2) h3 = Inr (a2, ci2, m2)" and nan2: "list_all (\<lambda>kv. fst kv = NaN) m2"
    by blast
  have k2: "contextImpl_Keys (Some a2) h3 = Inr (map fst m2)"
    by (simp add: contextImpl_Keys_def t2 fold_snoc)
  have "list_all (\<lambda>k. k = NaN) (map fst m2)"
    using nan2 by (simp add: list_all_iff)
  with n1 ops r k b n2 mem k2 show ?thesis by blast
qed

lemma mapassign_fresh:
  "\<forall>kv\<in>set acc. \<not> key_equal (fst kv) k \<Longrightarrow> mapassign k v acc = acc @ [(k, v)]"
  by (induction acc) auto

lemma copy_values_append:
  assumes "map_ok m" "\<forall>kv\<in>set m. \<forall>kv'\<in>set acc. \<not> key_equal (fst kv') (fst kv)"
  shows "copy_values m acc = acc @ m"
  using assms
proof (induction m arbitrary: acc)
  case Nil
  then show ?case by (simp add: copy_values_def)
next
  case (Cons kv m)
  obtain k v where kv: "kv = (k, v)" by (cases kv)
  from Cons.prems kv have fresh: "\<forall>kv'\<in>set acc. \<not> key_equal (fst kv') k" by auto
  have step: "copy_values (kv # m) acc = copy_values m (acc @ [(k, v)])"
    by (simp add: copy_values_def kv mapassign_fresh [OF fresh])
  have ok: "map_ok m" using Cons.prems(1) by (auto simp: map_ok_def split: if_splits)
  have sep: "\<forall>kv\<in>set m. \<forall>kv'\<in>set (acc @ [(k, v)]). \<not> key_equal (fst kv') (fst kv)"
    using Cons.prems kv by (auto simp: map_ok_def key_equal_def split: if_splits)
  show ?case unfolding step Cons.IH [OF ok sep] by (simp add: kv)
qed

lemma copy_values_ok: "map_ok m \<Longrightarrow> copy_values m [] = m"
  using copy_values_append [of m "[]"] by simp

lemma store_after_Cons: "store_after (op # ops) m = store_after ops (store_after [op] m)"
  by (cases op) simp_all

lemma apply_ops_two:
  assumes "the_ctx c h = Inr (a, ci, m)" "the_ctx d h = Inr (b, di, md)"
    and "vals ci \<noteq> vals di" "c \<noteq> d" "\<forall>x\<in>set ops. fst x = c \<or> fst x = d"
  shows "\<exists>h2. apply_ops ops h = Inr h2 \<and>
           the_ctx c h2 = Inr (a, ci, store_after (ops_on c ops) m) \<and>
           the_ctx d h2 = Inr (b, di, store_after (ops_on d ops) md)"
  using assms
proof (induction ops arbitrary: h m md)
  case Nil
  then show ?case by (simp add: ops_on_def)
next
  case (Cons x ops)
  obtain t op where x: "x = (t, op)" by (cases x)
  note dc = the_ctx_SomeD [OF Cons.prems(1)]
  note dd = the_ctx_SomeD [OF Cons.prems(2)]
  from Cons.prems(5) x have "t = c \<or> t = d" by simp
  then show ?case
  proof
    assume t: "t = c"
    let ?h1 = "h\<lparr>valmaps := (valmaps h)[vals ci := store_after [op] m]\<rparr>"
    have st: "apply_op t op h = Inr ?h1" unfolding t by (rule apply_op_frame [OF Cons.prems(1)])
    have c1: "the_ctx c ?h1 = Inr (a, ci, store_after [op] m)"
      using dc by (simp add: the_ctx_def)
    have d1: "the_ctx d ?h1 = Inr (b, di, md)"
      using dd Cons.prems(3) by (simp add: the_ctx_def)
    from Cons.prems(5) have rest: "\<forall>x\<in>set ops. fst x = c \<or> fst x = d" by simp
    have run: "apply_ops (x # ops) h = apply_ops ops ?h1" by (simp add: x st)
    have oc: "ops_on c (x # ops) = op # ops_on c ops" by (simp add: ops_on_def x t)
    have od: "ops_on d (x # ops) = ops_on d ops"
      using Cons.prems(4) by (simp add: ops_on_def x t)
    from Cons.IH [OF c1 d1 Cons.prems(3) Cons.prems(4) rest]
    show ?thesis unfolding run oc od store_after_Cons [of op "ops_on c ops"] .
  next
    assume t: "t = d"
    let ?h1 = "h\<lparr>valmaps := (valmaps h)[vals di := store_after [op] md]\<rparr>"
    have st: "apply_op t op h = Inr ?h1" unfolding t by (rule apply_op_frame [OF Cons.prems(2)])
    have c1: "the_ctx c ?h1 = Inr (a, ci, m)"
      using dc Cons.prems(3) by (simp add: the_ctx_def)
    have d1: "the_ctx d ?h1 = Inr (b, di, store_after [op] md)"
      using dd by (simp add: the_ctx_def)
    from Cons.prems(5) have rest: "\<forall>x\<in>set ops. fst x = c \<or> fst x = d" by simp
    have run: "apply_ops (x # ops) h = apply_ops ops ?h1" by (simp add: x st)
    have oc: "ops_on c (x # ops) = ops_on c ops"
      using Cons.prems(4) by (simp add: ops_on_def x t)
    have od: "ops_on d (x # ops) = op # ops_on d ops" by (simp add: ops_on_def x t)
    from Cons.IH [OF c1 d1 Cons.prems(3) Cons.prems(4) rest]
    show ?thesis unfolding run oc od store_after_Cons [of op "ops_on d ops"] .
  qed
qed

section \<open>The handler chain and its cache\<close>

lemma wrap_loop_foldr:
  "i \<le> length ms \<Longrightarrow> wrap_loop ms i h = foldr Wrapper (take i ms) h"
proof (induction i arbitrary: h)
  case 0
  then show ?case by simp
next
  case (Suc i)
  then have "i < length ms" by simp
  then have "take (Suc i) ms = take i ms @ [ms ! i]" by (rule take_Suc_conv_app_nth)
  with Suc show ?case by simp
qed

lemma wrap_loop_compose: "wrap_loop ms (length ms) BaseHandler = compose ms"
  by (simp add: wrap_loop_foldr compose_def)

lemma build_fresh:
  assumes "dirty r \<or> handlerChain r = None"
  shows "buildHandlerChain r =
           (compose (middlewares r),
            r\<lparr>handlerChain := Some (compose (middlewares r)), dirty := False\<rparr>)"
proof (cases "middlewares r = []")
  case True
  with assms show ?thesis by (auto simp: buildHandlerChain_def compose_def)
next
  case False
  with assms show ?thesis by (auto simp: buildHandlerChain_def wrap_loop_compose Let_def)
qed

lemma build_cached:
  assumes "\<not> dirty r" "handlerChain r = Some c"
  shows "buildHandlerChain r = (c, r)"
  using assms by (simp add: buildHandlerChain_def)

lemma build_cache_ok:
  assumes "cache_ok r"
  shows "buildHandlerChain r =
           (compose (middlewares r),
            r\<lparr>handlerChain := Some (compose (middlewares r)), dirty := False\<rparr>)"
proof (cases "dirty r \<or> handlerChain r = None")
  case True
  then show ?thesis by (rule build_fresh)
next
  case False
  with assms have c: "\<not> dirty r" "handlerChain r = Some (compose (middlewares r))"
    by (auto simp: cache_ok_def)
  then have "r\<lparr>handlerChain := Some (compose (middlewares r)), dirty := False\<rparr> = r" by simp
  with build_cached [OF c] show ?thesis by simp
qed

lemma reachable_cache_ok: "r \<in> reachable \<Longrightarrow> cache_ok r"
proof (induction rule: reachable.induct)
  case init
  show ?case by (simp add: cache_ok_def NewRouter_def)
next
  case (reg r m h)
  show ?case by (simp add: cache_ok_def Register_def)
next
  case (use r ms)
  show ?case by (simp add: cache_ok_def Use_def)
next
  case (build r)
  then show ?case by (simp add: build_cache_ok cache_ok_def)
qed

lemma Route_dispatch:
  assumes "cache_ok r"
  shows "Route choice r ctx buf h =
           (case dispatch (routes r) (middlewares r) choice ctx buf h of
              (res, h') \<Rightarrow>
                (res,
                 (case NewContext choice ctx buf h of
                    Inl f \<Rightarrow> r
                  | Inr x \<Rightarrow> r\<lparr>handlerChain := Some (compose (middlewares r)), dirty := False\<rparr>),
                 h'))"
  by (simp add: Route_def dispatch_def build_cache_ok [OF assms]
      split: sum.splits prod.splits)

lemma Route_reachable:
  assumes "r \<in> reachable"
  shows "fst (snd (Route choice r ctx buf h)) \<in> reachable"
proof (cases "NewContext choice ctx buf h")
  case (Inl f)
  with assms show ?thesis by (simp add: Route_def)
next
  case (Inr x)
  then have "fst (snd (Route choice r ctx buf h)) = snd (buildHandlerChain r)"
    by (simp add: Route_def split: prod.splits sum.splits)
  with assms show ?thesis by (simp add: reachable.build)
qed

lemma Route_outcome:
  assumes "r \<in> reachable"
  shows "(fst (Route choice r ctx buf h), snd (snd (Route choice r ctx buf h))) =
           dispatch (routes r) (middlewares r) choice ctx buf h"
  by (simp add: Route_dispatch [OF reachable_cache_ok [OF assms]] split: prod.splits)

lemma onion:
  "call rs (compose (map (\<lambda>(b, a). around b a) bas)) c w =
     (case baseHandler rs c (fold (\<lambda>(b, a). b) bas w) of
        (Inl f, w') \<Rightarrow> (Inl f, w')
      | (Inr e, w') \<Rightarrow> (Inr e, foldr (\<lambda>(b, a). a) bas w'))"
proof (induction bas arbitrary: w)
  case Nil
  show ?case by (simp add: compose_def split: prod.splits sum.splits)
next
  case (Cons x bas)
  obtain b a where x: "x = (b, a)" by (cases x)
  have "call rs (compose (map (\<lambda>(b, a). around b a) (x # bas))) c w =
        around b a c (call rs (compose (map (\<lambda>(b, a). around b a) bas))) w"
    by (simp add: compose_def x)
  also have "\<dots> = (case call rs (compose (map (\<lambda>(b, a). around b a) bas)) c (b w) of
        (Inl f, w1) \<Rightarrow> (Inl f, w1) | (Inr err, w1) \<Rightarrow> (Inr err, a w1))"
    by (simp add: around_def)
  finally show ?case
    by (simp add: Cons.IH x split: prod.splits sum.splits)
qed

lemma baseHandler_skip:
  "rejected_by pre ctx w = Some w1 \<Longrightarrow> baseHandler (pre @ rest) ctx w = baseHandler rest ctx w1"
proof (induction pre arbitrary: w)
  case Nil
  then show ?case by simp
next
  case (Cons e es)
  then show ?case
    by (auto split: prod.splits sum.splits bool.splits if_splits)
qed

lemma dispatch_compose: "dispatch rs ms = dispatch_with (compose ms) rs"
  by (intro ext) (simp add: dispatch_def dispatch_with_def)

lemma Route_dirty:
  assumes "dirty r"
  shows "Route choice r ctx buf h =
           (case dispatch (routes r) (middlewares r) choice ctx buf h of
              (res, h') \<Rightarrow>
                (res,
                 (case NewContext choice ctx buf h of
                    Inl f \<Rightarrow> r
                  | Inr x \<Rightarrow> r\<lparr>handlerChain := Some (compose (middlewares r)), dirty := False\<rparr>),
                 h'))"
  using assms by (intro Route_dispatch) (simp add: cache_ok_def)

lemma Route_clean:
  assumes "\<not> dirty r" "handlerChain r = Some hc"
  shows "Route choice r ctx buf h =
           (case dispatch_with hc (routes r) choice ctx buf h of (res, h') \<Rightarrow> (res, r, h'))"
  by (simp add: Route_def dispatch_with_def build_cached [OF assms]
      split: sum.splits prod.splits)

lemma Route_router:
  assumes "r \<in> reachable"
  shows "fst (snd (Route choice r ctx buf h)) =
           (case NewContext choice ctx buf h of
              Inl f \<Rightarrow> r
            | Inr x \<Rightarrow> r\<lparr>handlerChain := Some (compose (middlewares r)), dirty := False\<rparr>)"
  by (simp add: Route_dispatch [OF reachable_cache_ok [OF assms]] split: prod.splits)

section \<open>Dispatches in which no route matches\<close>








section \<open>Evaluation on the concrete programs\<close>

lemma NewContext_payload:
  "NewContext None None (Some 0) (payload_heap d) = Inr (Some 0, routed_heap d)"
  by (simp add: NewContext_def contextPool_Get_def sync_Pool_Get_def payload_heap_def
      routed_heap_def the_ctx_def clear_values_Nil)

lemma HasPrefix_prefix: "HasPrefix s p = prefix p s"
proof
  assume "HasPrefix s p"
  then have "take (length p) s = p" by (simp add: HasPrefix_def)
  then have "s = p @ drop (length p) s" by (metis append_take_drop_id)
  then show "prefix p s" by (rule prefixI)
next
  assume "prefix p s"
  then show "HasPrefix s p" by (auto simp: HasPrefix_def prefix_def)
qed

lemma Match_matcher_routed:
  "Match_matcher pat (Some 0) (routed_heap d) = (Inr (prefix pat d), routed_heap d)"
  by (auto simp: Match_matcher_def contextImpl_Buffer_def the_ctx_def routed_heap_def
      Buffer_Get_def bufferImpl_Get_def HasPrefix_prefix prefix_length_le)

lemma Reset_routed: "contextImpl_Reset (Some 0) (routed_heap d) = Inr (reset_heap d)"
  by (simp add: contextImpl_Reset_def the_ctx_def routed_heap_def reset_heap_def
      clear_values_Nil sync_Pool_Put_def)

section \<open>The middleware of package middleware on the concrete program\<close>










chapter \<open>Properties\<close>

section \<open>Buffer\<close>

text \<open>
  C8, amended. For every buffer \<open>b\<close> and integer \<open>n\<close>: if \<open>n \<ge> b.Len()\<close>, \<open>Truncate(n)\<close>
  returns and leaves the buffer unchanged; if \<open>0 \<le> n < b.Len()\<close>, \<open>Truncate(n)\<close> returns,
  the length is then exactly \<open>n\<close> and the content is the first \<open>n\<close> bytes of the old
  content.
\<close>

theorem Truncate_within_bounds:
  "(bufferImpl_Len b \<le> n \<longrightarrow> bufferImpl_Truncate n b = Inr b) \<and>
   (0 \<le> n \<and> n < bufferImpl_Len b \<longrightarrow>
      (\<exists>b'. bufferImpl_Truncate n b = Inr b' \<and> bufferImpl_Len b' = n \<and>
            bufferImpl_Get b' = take (nat n) (bufferImpl_Get b)))"
  by (auto simp: bufferImpl_Truncate_def bufferImpl_Len_def bufferImpl_Get_def)

theorem Truncate_within_bounds_witness:
  "bufferImpl_Truncate 5 \<lparr>data = ''abc''\<rparr> = Inr \<lparr>data = ''abc''\<rparr> \<and>
   (\<exists>b'. bufferImpl_Truncate 2 \<lparr>data = ''abc''\<rparr> = Inr b' \<and> bufferImpl_Len b' = 2 \<and>
         bufferImpl_Get b' = take (nat 2) (bufferImpl_Get \<lparr>data = ''abc''\<rparr>))"
  using Truncate_within_bounds [of "\<lparr>data = ''abc''\<rparr>" 5]
        Truncate_within_bounds [of "\<lparr>data = ''abc''\<rparr>" 2]
  by (simp add: bufferImpl_Len_def)

text \<open>
  C8 as stated fails for a negative \<open>n\<close>: \<open>-1 < Len()\<close> holds for the buffer \<open>abc\<close>, and
  \<open>Truncate(-1)\<close> panics in the slice expression instead of setting a length.
\<close>

theorem Truncate_negative_counterexample:
  "- 1 < bufferImpl_Len \<lparr>data = ''abc''\<rparr> \<and>
   bufferImpl_Truncate (- 1) \<lparr>data = ''abc''\<rparr> = Inl SliceBoundsOutOfRange"
  by (simp add: bufferImpl_Truncate_def bufferImpl_Len_def)

section \<open>Pool\<close>

text \<open>
  C10. \<open>Size()\<close> returns 0 for every pool, whatever its idle items are.
\<close>

theorem Size_constant_zero: "poolImpl_Size p = 0"
  by (simp add: poolImpl_Size_def)

text \<open>
  C9, at the failing input. \<open>Release(nil)\<close> on the buffer manager panics with a nil
  dereference in \<open>buf.Reset()\<close>, for every manager and heap, whereas \<open>Release(nil)\<close> on the
  pool returns and changes neither the pool nor the heap.
\<close>

theorem Release_nil_manager_panics:
  "bufferManagerImpl_Release None bm h = Inl NilPointerDereference \<and>
   poolImpl_Release None p h = Inr (p, h)"
  by (simp add: bufferManagerImpl_Release_def Buffer_Reset_def poolImpl_Release_def
      sync_Pool_Put_def)

section \<open>Router: the terminal handler\<close>

text \<open>
  C1. Let the route table be \<open>pre @ entry # post\<close>, where the matchers of \<open>pre\<close>, run in
  registration order, all return false and then the matcher of \<open>entry\<close> returns true. Then
  the terminal handler returns what the handler of \<open>entry\<close> returns, run in the state those
  matchers left: no handler of \<open>pre\<close> and neither matcher nor handler of \<open>post\<close> takes part.
\<close>

theorem first_match_wins:
  assumes "rejected_by pre ctx w = Some w1"
    and "matcher entry ctx w1 = (Inr True, w2)"
  shows "baseHandler (pre @ entry # post) ctx w = handler entry ctx w2"
  using assms
proof (induction pre arbitrary: w)
  case Nil
  then show ?case by simp
next
  case (Cons e es)
  then show ?case
    by (auto split: prod.splits sum.splits bool.splits if_splits)
qed

theorem first_match_wins_witness:
  "baseHandler
     [\<lparr>matcher = mock_matcher ''M0'' False, handler = mock_handler ''H0'' None\<rparr>,
      \<lparr>matcher = mock_matcher ''M1'' True, handler = mock_handler ''H1'' (Some (1::nat))\<rparr>,
      \<lparr>matcher = mock_matcher ''M2'' True, handler = mock_handler ''H2'' None\<rparr>]
     (Some 0) [] = (Inr (Some 1), [''M0'', ''M1'', ''H1''])"
  using first_match_wins [of
      "[\<lparr>matcher = mock_matcher ''M0'' False, handler = mock_handler ''H0'' None\<rparr>]"
      "Some 0" "[]" "[''M0'']"
      "\<lparr>matcher = mock_matcher ''M1'' True, handler = mock_handler ''H1'' (Some (1::nat))\<rparr>"
      "[''M0'', ''M1'']"
      "[\<lparr>matcher = mock_matcher ''M2'' True, handler = mock_handler ''H2'' None\<rparr>]"]
  by (simp add: mock_matcher_def mock_handler_def)

section \<open>Pooled contexts\<close>

text \<open>
  C2, at the failing input. The loop that clears the value store, in \<open>Reset\<close> and again in
  \<open>NewContext\<close>, leaves every entry whose key is a NaN. So for \<open>NewContext\<close>,
  \<open>Set(math.NaN(), 1)\<close>, \<open>Reset\<close>, \<open>NewContext\<close>, where the pool hands the released
  context out again: the first context has no keys, and the second one has the key of the
  entry the first use left.
\<close>

theorem NaN_key_survives_Reset:
  "clear_values m = filter (\<lambda>kv. fst kv = NaN) m \<and>
   (\<exists>h1 h2 h3 h4.
      NewContext None None (Some 0) (payload_heap d) = Inr (Some 0, h1) \<and>
      contextImpl_Keys (Some 0) h1 = Inr [] \<and>
      contextImpl_Set (Some 0) NaN (Some 1) h1 = Inr h2 \<and>
      contextImpl_Reset (Some 0) h2 = Inr h3 \<and>
      NewContext (Some 0) None (Some 0) h3 = Inr (Some 0, h4) \<and>
      contextImpl_Keys (Some 0) h4 = Inr [NaN])"
proof -
  let ?h2 = "(routed_heap d)\<lparr>valmaps := [[(NaN, Some 1)]]\<rparr>"
  let ?h3 = "(reset_heap d)\<lparr>valmaps := [[(NaN, Some 1)]]\<rparr>"
  have k1: "contextImpl_Keys (Some 0) (routed_heap d) = Inr []"
    by (simp add: contextImpl_Keys_def the_ctx_def routed_heap_def)
  have s: "contextImpl_Set (Some 0) NaN (Some 1) (routed_heap d) = Inr ?h2"
    by (simp add: contextImpl_Set_def the_ctx_def routed_heap_def)
  have r: "contextImpl_Reset (Some 0) ?h2 = Inr ?h3"
    by (simp add: contextImpl_Reset_def the_ctx_def routed_heap_def reset_heap_def
        clear_values_NaN sync_Pool_Put_def)
  have n: "NewContext (Some 0) None (Some 0) ?h3 = Inr (Some 0, ?h2)"
    by (simp add: NewContext_def contextPool_Get_def sync_Pool_Get_def the_ctx_def
        routed_heap_def reset_heap_def clear_values_NaN)
  have k: "contextImpl_Keys (Some 0) ?h2 = Inr [NaN]"
    by (simp add: contextImpl_Keys_def the_ctx_def routed_heap_def)
  from NewContext_payload [of d] k1 s r n k clear_values_NaN [of m] show ?thesis by blast
qed

section \<open>Context\<close>

text \<open>
  C7. For a context \<open>c\<close> of the heap whose map is a Go map (no two entries have equal
  keys; entries with NaN keys may repeat), \<open>Fork\<close> returns a
  context other than \<open>c\<close>; no buffer, no existing context or map and no pool changes,
  so the receiver is as before; the child has the buffer reference of \<open>c\<close> and a store
  with the entries of \<open>c\<close>; and after any sequence of \<open>Set\<close> and \<open>Delete\<close> calls on the two
  contexts, the store of each is what its own calls alone make of the store at fork time.
\<close>

theorem Fork_shares_buffer_copies_store:
  assumes c: "the_ctx c h = Inr (a, ci, m)" and dist: "map_ok m"
  shows "\<exists>child h' a' cc.
           contextImpl_Fork c h = Inr (child, h') \<and> child \<noteq> c \<and>
           the_ctx c h' = Inr (a, ci, m) \<and>
           bufs h' = bufs h \<and> contextPool h' = contextPool h \<and> user h' = user h \<and>
           take (length (ctxs h)) (ctxs h') = ctxs h \<and>
           take (length (valmaps h)) (valmaps h') = valmaps h \<and>
           the_ctx child h' = Inr (a', cc, m) \<and>
           contextImpl_Buffer child h' = Inr (buffer ci) \<and>
           contextImpl_Buffer c h' = Inr (buffer ci) \<and>
           (\<forall>ops. list_all (\<lambda>x. fst x = c \<or> fst x = child) ops \<longrightarrow>
              (\<exists>h2. apply_ops ops h' = Inr h2 \<and>
                 the_ctx c h2 = Inr (a, ci, store_after (ops_on c ops) m) \<and>
                 the_ctx child h2 = Inr (a', cc, store_after (ops_on child ops) m)))"
proof -
  note d = the_ctx_SomeD [OF c]
  let ?cc = "\<lparr>Context = Context ci, buffer = buffer ci, vals = length (valmaps h)\<rparr>"
  let ?h' = "h\<lparr>valmaps := valmaps h @ [m], ctxs := ctxs h @ [?cc]\<rparr>"
  let ?child = "Some (length (ctxs h))"
  have f: "contextImpl_Fork c h = Inr (?child, ?h')"
    by (simp add: contextImpl_Fork_def c copy_values_ok [OF dist])
  have ne: "?child \<noteq> c" using d by simp
  have tc: "the_ctx c ?h' = Inr (a, ci, m)"
    using d by (simp add: the_ctx_def nth_append)
  have tch: "the_ctx ?child ?h' = Inr (length (ctxs h), ?cc, m)"
    by (simp add: the_ctx_def nth_append)
  have buf: "contextImpl_Buffer ?child ?h' = Inr (buffer ci)"
    "contextImpl_Buffer c ?h' = Inr (buffer ci)"
    by (simp_all add: contextImpl_Buffer_def tch tc)
  have sep: "vals ci \<noteq> vals ?cc" using d by simp
  have ind: "\<exists>h2. apply_ops ops ?h' = Inr h2 \<and>
                 the_ctx c h2 = Inr (a, ci, store_after (ops_on c ops) m) \<and>
                 the_ctx ?child h2 = Inr (length (ctxs h), ?cc, store_after (ops_on ?child ops) m)"
    if "list_all (\<lambda>x. fst x = c \<or> fst x = ?child) ops" for ops
    using apply_ops_two [OF tc tch sep ne [symmetric]] that by (simp add: list_all_iff)
  show ?thesis
    apply (rule exI [of _ ?child], rule exI [of _ ?h'], rule exI [of _ "length (ctxs h)"],
        rule exI [of _ ?cc])
    using f ne tc tch buf ind by simp
qed

text \<open>
  C7 on a context with the entry \<open>1 \<mapsto> 10\<close>: after the fork, a \<open>Set\<close> of key 2 on the child
  and a \<open>Delete\<close> of key 1 on the parent, the child has both keys and the parent none.
\<close>

theorem Fork_shares_buffer_copies_store_witness:
  "\<exists>child h' h2.
     contextImpl_Fork (Some 0) forked_heap = Inr (child, h') \<and> child \<noteq> Some 0 \<and>
     contextImpl_Buffer child h' = Inr (Some 0) \<and>
     contextImpl_Buffer (Some 0) h' = Inr (Some 0) \<and>
     contextImpl_Get child (Key 1) h' = Inr (Some 10) \<and>
     apply_ops [(child, Set_op (Key 2) (Some 20)), (Some 0, Delete_op (Key 1))] h' = Inr h2 \<and>
     contextImpl_Get (Some 0) (Key 1) h2 = Inr None \<and>
     contextImpl_Get (Some 0) (Key 2) h2 = Inr None \<and>
     contextImpl_Get child (Key 1) h2 = Inr (Some 10) \<and>
     contextImpl_Get child (Key 2) h2 = Inr (Some 20)"
proof -
  let ?ci = "\<lparr>Context = Some Background, buffer = Some 0, vals = 0\<rparr>"
  have v: "the_ctx (Some 0) forked_heap = Inr (0, ?ci, [(Key 1, Some 10)])"
    by (simp add: the_ctx_def forked_heap_def)
  have dst: "map_ok [(Key (1 :: nat), Some (10 :: nat))]" by (simp add: map_ok_def)
  from Fork_shares_buffer_copies_store [OF v dst] obtain child h' a' cc where
    f: "contextImpl_Fork (Some 0) forked_heap = Inr (child, h')" and ne: "child \<noteq> Some 0"
    and tch: "the_ctx child h' = Inr (a', cc, [(Key 1, Some 10)])"
    and b: "contextImpl_Buffer child h' = Inr (buffer ?ci)"
      "contextImpl_Buffer (Some 0) h' = Inr (buffer ?ci)"
    and ind: "\<forall>ops. list_all (\<lambda>x. fst x = Some 0 \<or> fst x = child) ops \<longrightarrow>
         (\<exists>h2. apply_ops ops h' = Inr h2 \<and>
            the_ctx (Some 0) h2 = Inr (0, ?ci, store_after (ops_on (Some 0) ops) [(Key 1, Some 10)]) \<and>
            the_ctx child h2 = Inr (a', cc, store_after (ops_on child ops) [(Key 1, Some 10)]))"
    by blast
  let ?ops = "[(child, Set_op (Key 2) (Some 20)), (Some 0, Delete_op (Key 1))]"
  have "list_all (\<lambda>x. fst x = Some 0 \<or> fst x = child) ?ops" by simp
  with ind obtain h2 where
    run: "apply_ops ?ops h' = Inr h2"
    and p: "the_ctx (Some 0) h2 = Inr (0, ?ci, store_after (ops_on (Some 0) ?ops) [(Key 1, Some 10)])"
    and q: "the_ctx child h2 = Inr (a', cc, store_after (ops_on child ?ops) [(Key 1, Some 10)])"
    by blast
  have g0: "contextImpl_Get child (Key 1) h' = Inr (Some 10)"
    by (simp add: contextImpl_Get_def tch mapaccess_def key_equal_def)
  have g1: "contextImpl_Get (Some 0) (Key 1) h2 = Inr None" "contextImpl_Get (Some 0) (Key 2) h2 = Inr None"
    using ne by (simp_all add: contextImpl_Get_def p ops_on_def mapaccess_def mapdelete_def
        key_equal_def)
  have g2: "contextImpl_Get child (Key 1) h2 = Inr (Some 10)" "contextImpl_Get child (Key 2) h2 = Inr (Some 20)"
    using ne by (simp_all add: contextImpl_Get_def q ops_on_def mapaccess_def key_equal_def)
  from f ne b g0 run g1 g2 show ?thesis by auto
qed

section \<open>Router: composition of the middleware\<close>

text \<open>
  C3. Let a router have the middleware list \<open>[M1, M2]\<close>, each running its before effect,
  \<open>next\<close>, and its after effect, and a route table in which \<open>entry\<close> is the first entry
  that matches once both before effects have run. Then the chain \<open>buildHandlerChain\<close>
  returns runs: before of \<open>M1\<close>, before of \<open>M2\<close>, the matchers up to \<open>entry\<close>, the handler of
  \<open>entry\<close> and, if it returns, after of \<open>M2\<close>, then after of \<open>M1\<close>; the error is the
  handler's.
\<close>

theorem onion_order:
  assumes "r \<in> reachable"
    and "middlewares r = [around b1 a1, around b2 a2]"
    and "routes r = pre @ entry # post"
    and "rejected_by pre ctx (b2 (b1 w)) = Some w1"
    and "matcher entry ctx w1 = (Inr True, w2)"
  shows "call (routes r) (fst (buildHandlerChain r)) ctx w =
           (case handler entry ctx w2 of
              (Inl f, w3) \<Rightarrow> (Inl f, w3)
            | (Inr err, w3) \<Rightarrow> (Inr err, a1 (a2 w3)))"
proof -
  have chain: "fst (buildHandlerChain r) = compose (map (\<lambda>(b, a). around b a) [(b1, a1), (b2, a2)])"
    using build_cache_ok [OF reachable_cache_ok [OF assms(1)]] assms(2) by simp
  have base: "baseHandler (routes r) ctx (b2 (b1 w)) = handler entry ctx w2"
    using baseHandler_skip [OF assms(4), of "entry # post"] assms(3,5) by simp
  show ?thesis
    unfolding chain onion using base by (simp split: prod.splits sum.splits)
qed

text \<open>
  C3 on the router of \<open>TestRouter_UseMiddleware\<close>: the call order is the expected one.
\<close>

theorem onion_order_witness:
  "call
     (routes (Register (\<lambda>ctx w. (Inr True, w)) (mock_handler ''handler'' (None :: nat option))
        (Use [around (log_call ''middleware1-before'') (log_call ''middleware1-after''),
              around (log_call ''middleware2-before'') (log_call ''middleware2-after'')] NewRouter)))
     (fst (buildHandlerChain
        (Register (\<lambda>ctx w. (Inr True, w)) (mock_handler ''handler'' (None :: nat option))
          (Use [around (log_call ''middleware1-before'') (log_call ''middleware1-after''),
                around (log_call ''middleware2-before'') (log_call ''middleware2-after'')] NewRouter))))
     (Some 0) []
   = (Inr None, [''middleware1-before'', ''middleware2-before'', ''handler'',
                 ''middleware2-after'', ''middleware1-after''])"
proof -
  let ?m1 = "around (log_call ''middleware1-before'') (log_call ''middleware1-after'')
               :: (nat, string list) MiddlewareFunc"
  let ?m2 = "around (log_call ''middleware2-before'') (log_call ''middleware2-after'')
               :: (nat, string list) MiddlewareFunc"
  let ?e = "\<lparr>matcher = (\<lambda>ctx w. (Inr True, w)), handler = mock_handler ''handler'' (None :: nat option)\<rparr>"
  let ?r = "Register (matcher ?e) (handler ?e) (Use [?m1, ?m2] NewRouter)"
  have reach: "?r \<in> reachable" by (intro reachable.intros)
  have ms: "middlewares ?r = [?m1, ?m2]" by (simp add: Register_def Use_def NewRouter_def)
  have rs: "routes ?r = [] @ ?e # []" by (simp add: Register_def Use_def NewRouter_def)
  have rej: "rejected_by [] (Some 0)
               (log_call ''middleware2-before'' (log_call ''middleware1-before'' []))
             = Some [''middleware1-before'', ''middleware2-before'']"
    by (simp add: log_call_def)
  have acc: "matcher ?e (Some 0) [''middleware1-before'', ''middleware2-before'']
             = (Inr True, [''middleware1-before'', ''middleware2-before''])" by simp
  show ?thesis
    using onion_order [OF reach ms rs rej acc]
    by (simp add: mock_handler_def log_call_def)
qed

section \<open>Router: the cached chain\<close>

text \<open>
  C4. \<open>Register\<close>, \<open>Match\<close> and \<open>Use\<close> set the dirty flag. On a dirty router
  \<open>buildHandlerChain\<close> composes the chain from the current middleware list, caches it and
  clears the flag; on a clean router with a cached chain it returns that chain and leaves
  the router as it is. \<open>Route\<close> on any dirty router dispatches over the current route table
  and middleware list and leaves the router clean with the composed chain cached; \<open>Route\<close>
  on any clean router with a cached chain runs that chain and leaves the router as it is.
  For every router a program can hold, the cached chain of a clean router is the chain of
  its current middleware list, \<open>Route\<close> gives the result and the heap of a dispatch over
  the current route table and middleware list, and \<open>Route\<close> leaves the router clean with
  that chain cached (unchanged if it was so already): over the table with the new entry
  last after \<open>Register\<close> or \<open>Match\<close>, and over the list with the new middleware last after
  \<open>Use\<close>.
\<close>

theorem mutation_invalidates_cached_chain:
  fixes r r' :: "('e, ('k, 'v, 'x) heap) routerImpl"
  assumes "r \<in> reachable"
  shows "dirty (Register m hf r) \<and> dirty (Match pat hf r) \<and> dirty (Use ms r) \<and>
         (dirty r \<longrightarrow>
            buildHandlerChain r =
              (compose (middlewares r),
               r\<lparr>handlerChain := Some (compose (middlewares r)), dirty := False\<rparr>)) \<and>
         (\<not> dirty r \<and> handlerChain r \<noteq> None \<longrightarrow>
            buildHandlerChain r = (the (handlerChain r), r)) \<and>
         (fst (Route choice r ctx buf h), snd (snd (Route choice r ctx buf h))) =
           dispatch (routes r) (middlewares r) choice ctx buf h \<and>
         (fst (Route choice (Register m hf r) ctx buf h),
          snd (snd (Route choice (Register m hf r) ctx buf h))) =
           dispatch (routes r @ [\<lparr>matcher = m, handler = hf\<rparr>]) (middlewares r) choice ctx buf h \<and>
         (fst (Route choice (Match pat hf r) ctx buf h),
          snd (snd (Route choice (Match pat hf r) ctx buf h))) =
           dispatch (routes r @ [\<lparr>matcher = Match_matcher pat, handler = hf\<rparr>]) (middlewares r)
             choice ctx buf h \<and>
         (fst (Route choice (Use ms r) ctx buf h), snd (snd (Route choice (Use ms r) ctx buf h))) =
           dispatch (routes r) (middlewares r @ ms) choice ctx buf h \<and>
         (dirty r' \<longrightarrow>
            Route choice r' ctx buf h =
              (case dispatch (routes r') (middlewares r') choice ctx buf h of
                 (res, h') \<Rightarrow>
                   (res,
                    (case NewContext choice ctx buf h of
                       Inl f \<Rightarrow> r'
                     | Inr x \<Rightarrow>
                         r'\<lparr>handlerChain := Some (compose (middlewares r')), dirty := False\<rparr>),
                    h'))) \<and>
         (\<not> dirty r' \<and> handlerChain r' = Some hc \<longrightarrow>
            Route choice r' ctx buf h =
              (case dispatch_with hc (routes r') choice ctx buf h of
                 (res, h') \<Rightarrow> (res, r', h'))) \<and>
         (\<not> dirty r \<and> handlerChain r = Some hc \<longrightarrow> hc = compose (middlewares r)) \<and>
         fst (snd (Route choice r ctx buf h)) =
           (case NewContext choice ctx buf h of
              Inl f \<Rightarrow> r
            | Inr x \<Rightarrow> r\<lparr>handlerChain := Some (compose (middlewares r)), dirty := False\<rparr>) \<and>
         fst (snd (Route choice (Register m hf r) ctx buf h)) =
           (case NewContext choice ctx buf h of
              Inl f \<Rightarrow> Register m hf r
            | Inr x \<Rightarrow>
                (Register m hf r)\<lparr>handlerChain := Some (compose (middlewares r)),
                                   dirty := False\<rparr>) \<and>
         fst (snd (Route choice (Match pat hf r) ctx buf h)) =
           (case NewContext choice ctx buf h of
              Inl f \<Rightarrow> Match pat hf r
            | Inr x \<Rightarrow>
                (Match pat hf r)\<lparr>handlerChain := Some (compose (middlewares r)),
                                  dirty := False\<rparr>) \<and>
         fst (snd (Route choice (Use ms r) ctx buf h)) =
           (case NewContext choice ctx buf h of
              Inl f \<Rightarrow> Use ms r
            | Inr x \<Rightarrow>
                (Use ms r)\<lparr>handlerChain := Some (compose (middlewares r @ ms)),
                            dirty := False\<rparr>)"
proof -
  have flags: "dirty (Register m hf r) \<and> dirty (Match pat hf r) \<and> dirty (Use ms r)"
    by (simp add: Register_def Match_def Use_def)
  have rebuild: "dirty r \<longrightarrow>
            buildHandlerChain r =
              (compose (middlewares r),
               r\<lparr>handlerChain := Some (compose (middlewares r)), dirty := False\<rparr>)"
    by (simp add: build_fresh)
  have reuse: "\<not> dirty r \<and> handlerChain r \<noteq> None \<longrightarrow>
            buildHandlerChain r = (the (handlerChain r), r)"
    by (auto simp: build_cached)
  have reg: "Register m hf r \<in> reachable" for m hf
    using assms by (rule reachable.reg)
  have use: "Use ms r \<in> reachable" using assms by (rule reachable.use)
  have r0: "(fst (Route choice r ctx buf h), snd (snd (Route choice r ctx buf h))) =
           dispatch (routes r) (middlewares r) choice ctx buf h"
    by (rule Route_outcome [OF assms])
  have r1: "(fst (Route choice (Register m hf r) ctx buf h),
          snd (snd (Route choice (Register m hf r) ctx buf h))) =
           dispatch (routes r @ [\<lparr>matcher = m, handler = hf\<rparr>]) (middlewares r) choice ctx buf h"
    using Route_outcome [OF reg, of choice m hf ctx buf h] by (simp add: Register_def)
  have r2: "(fst (Route choice (Match pat hf r) ctx buf h),
          snd (snd (Route choice (Match pat hf r) ctx buf h))) =
           dispatch (routes r @ [\<lparr>matcher = Match_matcher pat, handler = hf\<rparr>]) (middlewares r)
             choice ctx buf h"
    using Route_outcome [OF reg, of choice "Match_matcher pat" hf ctx buf h]
    by (simp add: Register_def Match_def)
  have r3: "(fst (Route choice (Use ms r) ctx buf h), snd (snd (Route choice (Use ms r) ctx buf h))) =
           dispatch (routes r) (middlewares r @ ms) choice ctx buf h"
    using Route_outcome [OF use, of choice ctx buf h] by (simp add: Use_def)
  have d: "dirty r' \<longrightarrow>
            Route choice r' ctx buf h =
              (case dispatch (routes r') (middlewares r') choice ctx buf h of
                 (res, h') \<Rightarrow>
                   (res,
                    (case NewContext choice ctx buf h of
                       Inl f \<Rightarrow> r'
                     | Inr x \<Rightarrow>
                         r'\<lparr>handlerChain := Some (compose (middlewares r')), dirty := False\<rparr>),
                    h'))"
    using Route_dirty [of r' choice ctx buf h] by blast
  have c: "\<not> dirty r' \<and> handlerChain r' = Some hc \<longrightarrow>
            Route choice r' ctx buf h =
              (case dispatch_with hc (routes r') choice ctx buf h of
                 (res, h') \<Rightarrow> (res, r', h'))"
    using Route_clean [of r' hc choice ctx buf h] by blast
  have fresh: "\<not> dirty r \<and> handlerChain r = Some hc \<longrightarrow> hc = compose (middlewares r)"
    using reachable_cache_ok [OF assms] by (auto simp: cache_ok_def)
  have n0: "fst (snd (Route choice r ctx buf h)) =
           (case NewContext choice ctx buf h of
              Inl f \<Rightarrow> r
            | Inr x \<Rightarrow> r\<lparr>handlerChain := Some (compose (middlewares r)), dirty := False\<rparr>)"
    by (rule Route_router [OF assms])
  have n1: "fst (snd (Route choice (Register m hf r) ctx buf h)) =
           (case NewContext choice ctx buf h of
              Inl f \<Rightarrow> Register m hf r
            | Inr x \<Rightarrow>
                (Register m hf r)\<lparr>handlerChain := Some (compose (middlewares r)),
                                   dirty := False\<rparr>)" for m
  proof -
    have mr: "middlewares (Register m hf r) = middlewares r" by (simp add: Register_def)
    show ?thesis using Route_router [OF reg, of choice m hf ctx buf h] unfolding mr .
  qed
  have n2: "fst (snd (Route choice (Match pat hf r) ctx buf h)) =
           (case NewContext choice ctx buf h of
              Inl f \<Rightarrow> Match pat hf r
            | Inr x \<Rightarrow>
                (Match pat hf r)\<lparr>handlerChain := Some (compose (middlewares r)),
                                  dirty := False\<rparr>)"
    using n1 [of "Match_matcher pat"] unfolding Match_def .
  have n3: "fst (snd (Route choice (Use ms r) ctx buf h)) =
           (case NewContext choice ctx buf h of
              Inl f \<Rightarrow> Use ms r
            | Inr x \<Rightarrow>
                (Use ms r)\<lparr>handlerChain := Some (compose (middlewares r @ ms)),
                            dirty := False\<rparr>)"
  proof -
    have mu: "middlewares (Use ms r) = middlewares r @ ms" by (simp add: Use_def)
    show ?thesis using Route_router [OF use, of choice ctx buf h] unfolding mu .
  qed
  show ?thesis
    by (intro conjI flags [THEN conjunct1] flags [THEN conjunct2, THEN conjunct1]
        flags [THEN conjunct2, THEN conjunct2] rebuild reuse r0 r1 r2 r3 d c fresh n0 n1 n2 n3)
qed

text \<open>
  C4 on the router a first \<open>Route\<close> leaves: it is clean with the chain cached,
  \<open>buildHandlerChain\<close> leaves it alone, and a dispatch of \<open>Hello, World!\<close> runs no handler
  and returns the same router. After \<open>Match("Hello", h)\<close> the router is dirty; the same
  dispatch returns the error of \<open>h\<close> and a clean router with the chain cached. After \<open>Use\<close>
  of a middleware the dispatch returns the error of the middleware and a clean router that
  caches the chain with the middleware.
\<close>

theorem mutation_invalidates_cached_chain_witness:
  "\<not> dirty (snd (buildHandlerChain (NewRouter :: (nat, (nat, nat, unit) heap) routerImpl))) \<and>
   handlerChain (snd (buildHandlerChain (NewRouter :: (nat, (nat, nat, unit) heap) routerImpl)))
     = Some BaseHandler \<and>
   buildHandlerChain (snd (buildHandlerChain (NewRouter :: (nat, (nat, nat, unit) heap) routerImpl)))
     = (BaseHandler, snd (buildHandlerChain NewRouter)) \<and>
   Route None (snd (buildHandlerChain NewRouter)) None (Some 0) (payload_heap ''Hello, World!'')
     = (Inr (Some 0, (None :: nat option)), snd (buildHandlerChain NewRouter),
        reset_heap ''Hello, World!'') \<and>
   dirty (Match ''Hello'' failing_handler
            (snd (buildHandlerChain (NewRouter :: (nat, (nat, nat, unit) heap) routerImpl)))) \<and>
   buildHandlerChain (Match ''Hello'' failing_handler
       (snd (buildHandlerChain (NewRouter :: (nat, (nat, nat, unit) heap) routerImpl)))) =
     (BaseHandler,
      (Match ''Hello'' failing_handler (snd (buildHandlerChain NewRouter)))
        \<lparr>handlerChain := Some BaseHandler, dirty := False\<rparr>) \<and>
   Route None (Match ''Hello'' failing_handler (snd (buildHandlerChain NewRouter))) None
       (Some 0) (payload_heap ''Hello, World!'')
     = (Inr (Some 0, Some 7),
        (Match ''Hello'' failing_handler (snd (buildHandlerChain NewRouter)))
          \<lparr>handlerChain := Some BaseHandler, dirty := False\<rparr>,
        reset_heap ''Hello, World!'') \<and>
   Route None (Use [complaining_middleware] (snd (buildHandlerChain NewRouter))) None
       (Some 0) (payload_heap ''Hello, World!'')
     = (Inr (Some 0, Some 1),
        (Use [complaining_middleware] (snd (buildHandlerChain NewRouter)))
          \<lparr>handlerChain := Some (Wrapper complaining_middleware BaseHandler), dirty := False\<rparr>,
        reset_heap ''Hello, World!'')"
proof -
  let ?r0 = "snd (buildHandlerChain (NewRouter :: (nat, (nat, nat, unit) heap) routerImpl))"
  let ?r1 = "Match ''Hello'' failing_handler ?r0"
  let ?r2 = "Use [complaining_middleware] ?r0"
  let ?h = "payload_heap ''Hello, World!''"
  have r0: "?r0 = \<lparr>routes = [], middlewares = [], handlerChain = Some BaseHandler, dirty = False\<rparr>"
    by (simp add: buildHandlerChain_def NewRouter_def)
  have reach0: "?r0 \<in> reachable" by (intro reachable.intros)
  have clean: "\<not> dirty ?r0" "handlerChain ?r0 = Some BaseHandler" "handlerChain ?r0 \<noteq> None"
    "the (handlerChain ?r0) = BaseHandler"
    by (simp_all add: r0)
  have d1: "dirty ?r1" by (simp add: Match_def Register_def)
  have d2: "dirty ?r2" by (simp add: Use_def)
  have nc: "NewContext None None (Some 0) ?h = Inr (Some 0, routed_heap ''Hello, World!'')"
    by (rule NewContext_payload)
  note t0 = mutation_invalidates_cached_chain [OF reach0, where r' = "?r0" and hc = BaseHandler
      and m = "Match_matcher ''Hello''" and hf = failing_handler and pat = "''Hello''"
      and ms = "[complaining_middleware]" and choice = None and ctx = None and buf = "Some 0"
      and h = "?h"]
  note t1 = mutation_invalidates_cached_chain [OF reach0, where r' = "?r1" and hc = BaseHandler
      and m = "Match_matcher ''Hello''" and hf = failing_handler and pat = "''Hello''"
      and ms = "[complaining_middleware]" and choice = None and ctx = None and buf = "Some 0"
      and h = "?h"]
  note t2 = mutation_invalidates_cached_chain [OF reach0, where r' = "?r2" and hc = BaseHandler
      and m = "Match_matcher ''Hello''" and hf = failing_handler and pat = "''Hello''"
      and ms = "[complaining_middleware]" and choice = None and ctx = None and buf = "Some 0"
      and h = "?h"]
  have ev0: "dispatch_with BaseHandler (routes ?r0) None None (Some 0) ?h
               = (Inr (Some 0, None), reset_heap ''Hello, World!'')"
    by (simp add: dispatch_with_def r0 NewContext_payload Reset_routed)
  have ev1: "dispatch (routes ?r1) (middlewares ?r1) None None (Some 0) ?h
             = (Inr (Some 0, Some 7), reset_heap ''Hello, World!'')"
    by (simp add: dispatch_def r0 Match_def Register_def NewContext_payload compose_def
        Reset_routed Match_matcher_routed failing_handler_def)
  have ev2: "dispatch (routes ?r2) (middlewares ?r2) None None (Some 0) ?h
               = (Inr (Some 0, Some 1), reset_heap ''Hello, World!'')"
    by (simp add: dispatch_def r0 Use_def NewContext_payload compose_def Reset_routed
        complaining_middleware_def)
  have c1: "compose (middlewares ?r1) = BaseHandler"
    by (simp add: compose_def Match_def Register_def r0)
  have c2: "compose (middlewares ?r2) = Wrapper complaining_middleware BaseHandler"
    by (simp add: compose_def Use_def r0)
  have c0: "compose (middlewares ?r0) = BaseHandler" by (simp add: compose_def r0)
  have a: "buildHandlerChain ?r0 = (BaseHandler, ?r0)"
    using t0 clean by simp
  have b: "Route None ?r0 None (Some 0) ?h = (Inr (Some 0, None), ?r0, reset_heap ''Hello, World!'')"
    using t0 [THEN conjunct2, THEN conjunct2, THEN conjunct2, THEN conjunct2, THEN conjunct2,
        THEN conjunct2, THEN conjunct2, THEN conjunct2, THEN conjunct2, THEN conjunct2,
        THEN conjunct1] clean ev0 by simp
  have c: "buildHandlerChain ?r1 = (BaseHandler, ?r1\<lparr>handlerChain := Some BaseHandler, dirty := False\<rparr>)"
    using d1 by (simp add: build_fresh c1)
  have d: "Route None ?r1 None (Some 0) ?h =
        (Inr (Some 0, Some 7), ?r1\<lparr>handlerChain := Some BaseHandler, dirty := False\<rparr>,
         reset_heap ''Hello, World!'')"
    using t1 [THEN conjunct2, THEN conjunct2, THEN conjunct2, THEN conjunct2, THEN conjunct2,
        THEN conjunct2, THEN conjunct2, THEN conjunct2, THEN conjunct2, THEN conjunct1]
      d1 ev1 nc c1 by simp
  have e: "Route None ?r2 None (Some 0) ?h =
        (Inr (Some 0, Some 1),
         ?r2\<lparr>handlerChain := Some (Wrapper complaining_middleware BaseHandler), dirty := False\<rparr>,
         reset_heap ''Hello, World!'')"
    using t2 [THEN conjunct2, THEN conjunct2, THEN conjunct2, THEN conjunct2, THEN conjunct2,
        THEN conjunct2, THEN conjunct2, THEN conjunct2, THEN conjunct2, THEN conjunct1]
      d2 ev2 nc c2 by simp
  show ?thesis
    by (intro conjI clean(1) clean(2) a b d1 c d e)
qed

section \<open>Router: no route matches\<close>




section \<open>Router: the pattern of Match\<close>

text \<open>
  C5, at the failing inputs. The matcher of \<open>Match(pattern, h)\<close> returns true exactly for
  the payloads that begin with the whole string \<open>pattern\<close>. So for the payload
  \<open>Hello World\<close>, which ends with \<open>World\<close> and begins with \<open>Hello\<close>, neither the route
  \<open>/suffix/World\<close> nor the route \<open>/prefix/Hello\<close> matches: \<open>Route\<close> returns nil, not the
  error of the handler.
\<close>

theorem Match_is_prefix_only:
  "Match_matcher pat (Some 0) (routed_heap d) = (Inr (prefix pat d), routed_heap d) \<and>
   suffix ''World'' ''Hello World'' \<and>
   Route None (Match ''/suffix/World'' failing_handler NewRouter) None (Some 0)
       (payload_heap ''Hello World'')
     = (Inr (Some 0, None),
        (Match ''/suffix/World'' failing_handler NewRouter)
          \<lparr>handlerChain := Some BaseHandler, dirty := False\<rparr>,
        reset_heap ''Hello World'') \<and>
   prefix ''Hello'' ''Hello World'' \<and>
   Route None (Match ''/prefix/Hello'' failing_handler NewRouter) None (Some 0)
       (payload_heap ''Hello World'')
     = (Inr (Some 0, None),
        (Match ''/prefix/Hello'' failing_handler NewRouter)
          \<lparr>handlerChain := Some BaseHandler, dirty := False\<rparr>,
        reset_heap ''Hello World'')"
proof -
  have s: "suffix ''World'' ''Hello World''"
    by (rule suffixI [of _ "''Hello ''"]) simp
  have p: "prefix ''Hello'' ''Hello World''" by simp
  have r: "Route None (Match pat failing_handler NewRouter) None (Some 0) (payload_heap d)
     = (Inr (Some 0, None),
        (Match pat failing_handler NewRouter)\<lparr>handlerChain := Some BaseHandler, dirty := False\<rparr>,
        reset_heap d)" if "\<not> prefix pat d" for pat d
    using that
    by (simp add: Route_def NewContext_payload buildHandlerChain_def Match_def Register_def
        NewRouter_def Match_matcher_routed Reset_routed)
  from Match_matcher_routed s p r [of "''/suffix/World''" "''Hello World''"]
    r [of "''/prefix/Hello''" "''Hello World''"]
  show ?thesis by simp
qed

end
